theory Spec2Isabelle
  imports Main "HOL-Library.Word"
begin

section \<open>Data model\<close>

text \<open>
  A JavaScript string is a sequence of UTF-16 code units; \<open>input.length\<close>,
  \<open>input[i]\<close>, \<open>substr\<close> and \<open>split("")\<close> all count code units. Every glyph of
  the language lies in the Basic Multilingual Plane and is one code unit.
\<close>

type_synonym jschar = "16 word"
type_synonym jsstring = "jschar list"

text \<open>
  The three marker glyphs that end a token: \<open>A\<close> is the full-width exclamation mark
  (U+FF01), \<open>B\<close> the full-width question mark (U+FF1F) and \<open>C\<close> the ideographic
  full stop (U+3002).
\<close>

datatype marker = A | B | C

definition glyph :: "marker \<Rightarrow> jschar" where
  "glyph m = (case m of A \<Rightarrow> 0xFF01 | B \<Rightarrow> 0xFF1F | C \<Rightarrow> 0x3002)"

definition marker_of :: "jschar \<Rightarrow> marker" where
  "marker_of c = (if c = 0xFF01 then A else if c = 0xFF1F then B else C)"

text \<open>The three code units of the keyword prefix (U+3046, U+3093, U+3061).\<close>

definition keyword :: jsstring where
  "keyword = [0x3046, 0x3093, 0x3061]"

definition validTokens :: "jsstring list" where
  "validTokens = [keyword @ [glyph A], keyword @ [glyph B], keyword @ [glyph C]]"

text \<open>
  An instruction value is the string \<open>tokens[current] + tokens[++current]\<close>: two
  glyphs, or one glyph followed by the text of \<open>undefined\<close> when the second read
  is past the end of the array.
\<close>

datatype instr = Pair marker marker | Dangling marker

abbreviation INCREMENT_POINTER :: instr where "INCREMENT_POINTER \<equiv> Pair C B"
abbreviation DECREMENT_POINTER :: instr where "DECREMENT_POINTER \<equiv> Pair B C"
abbreviation INCREMENT_VALUE :: instr where "INCREMENT_VALUE \<equiv> Pair C C"
abbreviation DECREMENT_VALUE :: instr where "DECREMENT_VALUE \<equiv> Pair A A"
abbreviation IN :: instr where "IN \<equiv> Pair C A"
abbreviation OUT :: instr where "OUT \<equiv> Pair A C"
abbreviation LOOP_START :: instr where "LOOP_START \<equiv> Pair A B"
abbreviation LOOP_END :: instr where "LOOP_END \<equiv> Pair B A"

text \<open>
  The objects \<open>{type: "instruction", value}\<close> and \<open>{type: "loop", value}\<close> that
  the parser builds. No other type tag is ever constructed, so the executor's last
  branch (an unknown type tag) has no counterpart here.
\<close>

datatype node = Simple instr | Loop "node list"

datatype error =
    UnclosedComment
  | InvalidToken jschar nat
  | OddTokenCount
  | InvalidInstructionPair
  | UnsupportedInput
  | UnmatchedLoopEnd
  | UndefinedInstruction instr

section \<open>Lexer\<close>

text \<open>\<open>input.substr(start, len)\<close> for a non-negative start.\<close>

definition substr :: "jsstring \<Rightarrow> nat \<Rightarrow> nat \<Rightarrow> jsstring" where
  "substr input start len = take len (drop start input)"

text \<open>The class \<open>\s\<close> of a JavaScript regular expression, on one code unit.\<close>

definition is_space :: "jschar \<Rightarrow> bool" where
  "is_space c \<longleftrightarrow>
     c \<in> set [0x0009, 0x000A, 0x000B, 0x000C, 0x000D, 0x0020, 0x00A0, 0x1680,
              0x2028, 0x2029, 0x202F, 0x205F, 0x3000, 0xFEFF]
     \<or> (0x2000 \<le> c \<and> c \<le> 0x200A)"

definition slash_star :: jsstring where "slash_star = [0x002F, 0x002A]"
definition star_slash :: jsstring where "star_slash = [0x002A, 0x002F]"

text \<open>
  The inner loop of the comment branch,
  \<open>while (input.substr(++current, 2) !== "*/") { if (current + 2 >= input.length) throw \<dots> }\<close>.
  The argument is the cursor before the pre-increment, the result the cursor at the
  closer.
\<close>

function comment_scan :: "jsstring \<Rightarrow> nat \<Rightarrow> error + nat" where
  "comment_scan input current =
     (if substr input (current + 1) 2 \<noteq> star_slash
      then (if current + 1 + 2 \<ge> length input then Inl UnclosedComment
            else comment_scan input (current + 1))
      else Inr (current + 1))"
  by pat_completeness auto
termination
  by (relation "measure (\<lambda>(input, current). length input - current)") auto

declare comment_scan.simps [simp del]

text \<open>
  The final \<open>forEach\<close> over the code units of the four-unit window: the first code
  unit that is not allowed at its index is the one reported. The window never has
  more than four code units, so the index stays inside the table.
\<close>

definition allowed :: "jschar list list" where
  "allowed = [[0x3046], [0x3093], [0x3061], [glyph A, glyph B, glyph C]]"

fun offending :: "nat \<Rightarrow> jsstring \<Rightarrow> (jschar \<times> nat) option" where
  "offending i [] = None"
| "offending i (c # cs) =
     (if c \<notin> set (allowed ! i) then Some (c, i) else offending (i + 1) cs)"

text \<open>
  The outer \<open>while (current < input.length)\<close> of \<open>tokenize\<close>. When the window is
  no valid token and \<open>forEach\<close> throws nothing, the source falls back to the loop
  head with \<open>current\<close> unchanged; the last recursive call is that path. A run that
  never returns is \<open>None\<close>.
\<close>

partial_function (option) tokenize_loop ::
  "jsstring \<Rightarrow> nat \<Rightarrow> marker list \<Rightarrow> (error + marker list) option" where
  "tokenize_loop input current tokens =
     (if current < length input then
        (if is_space (input ! current) then tokenize_loop input (current + 1) tokens
         else if substr input current 2 = slash_star then
           (case comment_scan input (current + 1) of
              Inl e \<Rightarrow> Some (Inl e)
            | Inr c \<Rightarrow> tokenize_loop input (c + 2) tokens)
         else if substr input current 4 \<in> set validTokens then
           tokenize_loop input (current + 4)
             (tokens @ [marker_of (substr input current 4 ! 3)])
         else
           (case offending 0 (substr input current 4) of
              Some (c, i) \<Rightarrow> Some (Inl (InvalidToken c (current + i + 1)))
            | None \<Rightarrow> tokenize_loop input current tokens))
      else Some (Inr tokens))"

definition tokenize :: "jsstring \<Rightarrow> (error + marker list) option" where
  "tokenize input = tokenize_loop input 0 []"

section \<open>Parser\<close>

text \<open>
  \<open>tokens[current] + tokens[++current]\<close>, read at a cursor inside the array. The
  second read may fall past the end, where JavaScript yields \<open>undefined\<close>.
\<close>

definition read_instruction :: "marker list \<Rightarrow> nat \<Rightarrow> instr" where
  "read_instruction tokens current =
     (if current + 1 < length tokens then Pair (tokens ! current) (tokens ! (current + 1))
      else Dangling (tokens ! current))"

text \<open>
  The closure \<open>parseRecursively\<close> with the variables it captures, \<open>current\<close> and
  \<open>loopDepth\<close>, passed in and returned. The second argument is the local array
  \<open>instructions\<close>: a call of the source function starts the loop with \<open>[]\<close>. The
  cursor argument is the value of \<open>current\<close> at the loop head; after the pair has
  been read it has advanced by one, so \<open>break\<close> leaves it at \<open>current + 1\<close>, the
  nested call starts at \<open>current + 2\<close>, and the \<open>current++\<close> that ends the loop
  body adds one more.
\<close>

function parseRecursively ::
  "marker list \<Rightarrow> node list \<Rightarrow> nat \<Rightarrow> nat \<Rightarrow> error + (node list \<times> nat \<times> nat)" where
  "parseRecursively tokens instructions current loopDepth =
     (if current < length tokens then
        (if read_instruction tokens current = Pair B B then Inl InvalidInstructionPair
         else if read_instruction tokens current = IN then Inl UnsupportedInput
         else if read_instruction tokens current = LOOP_END then
           (if loopDepth > 0 then Inr (instructions, current + 1, loopDepth - 1)
            else Inl UnmatchedLoopEnd)
         else if read_instruction tokens current = LOOP_START then
           (case parseRecursively tokens [] (current + 2) (loopDepth + 1) of
              Inl e \<Rightarrow> Inl e
            | Inr (body, current', loopDepth') \<Rightarrow>
                parseRecursively tokens (instructions @ [Loop body]) (current' + 1) loopDepth')
         else parseRecursively tokens
                (instructions @ [Simple (read_instruction tokens current)])
                (current + 2) loopDepth)
      else Inr (instructions, current, loopDepth))"
  by pat_completeness auto

lemma parseRecursively_cursor_dom:
  "parseRecursively_dom (tokens, instructions, current, loopDepth) \<Longrightarrow>
   parseRecursively tokens instructions current loopDepth = Inr (r, current', loopDepth') \<Longrightarrow>
   current \<le> current'"
proof (induction arbitrary: r current' loopDepth' rule: parseRecursively.pinduct)
  case (1 tokens instructions current loopDepth)
  show ?case
    using "1.prems" "1.IH" "1.hyps"
    by (subst (asm) parseRecursively.psimps)
       (fastforce split: if_splits sum.splits prod.splits)+
qed

termination parseRecursively
proof (relation "measure (\<lambda>(tokens, instructions, current, loopDepth). length tokens - current)",
       goal_cases)
  case 1
  then show ?case by simp
next
  case (2 tokens instructions current loopDepth)
  then show ?case by simp
next
  case (3 tokens instructions current loopDepth r body rest current' loopDepth')
  then show ?case
    using parseRecursively_cursor_dom [of tokens "[]" "current + 2" "loopDepth + 1"]
    by auto
next
  case (4 tokens instructions current loopDepth)
  then show ?case by simp
qed

declare parseRecursively.simps [simp del]

definition parse :: "marker list \<Rightarrow> error + node list" where
  "parse tokens =
     (if length tokens mod 2 \<noteq> 0 then Inl OddTokenCount
      else (case parseRecursively tokens [] 0 0 of
              Inl e \<Rightarrow> Inl e
            | Inr (instructions, current, loopDepth) \<Rightarrow> Inr instructions))"

section \<open>Executor\<close>

text \<open>
  The values a slot of \<open>memory\<close> can hold. Every number the program computes is an
  integer reached from 0 in steps of one; such a double is exact up to magnitude
  \<open>2 ^ 53\<close>, where adding one rounds back to the same value.
\<close>

datatype jsval = Num int | NaN | Null | Undefined

definition js_inc :: "int \<Rightarrow> int" where
  "js_inc x = (if x = 2 ^ 53 then x else x + 1)"

definition js_dec :: "int \<Rightarrow> int" where
  "js_dec x = (if x = - (2 ^ 53) then x else x - 1)"

text \<open>\<open>v++\<close> and \<open>v--\<close> convert the old value with \<open>ToNumber\<close> first.\<close>

fun incremented :: "jsval \<Rightarrow> jsval" where
  "incremented (Num n) = Num (js_inc n)"
| "incremented Null = Num 1"
| "incremented v = NaN"

fun decremented :: "jsval \<Rightarrow> jsval" where
  "decremented (Num n) = Num (js_dec n)"
| "decremented Null = Num (- 1)"
| "decremented v = NaN"

text \<open>\<open>String.fromCharCode(v)\<close>: \<open>ToUint16\<close> of \<open>ToNumber(v)\<close>, one code unit.\<close>

fun fromCharCode :: "jsval \<Rightarrow> jschar" where
  "fromCharCode (Num n) = word_of_int n"
| "fromCharCode v = 0"

text \<open>
  The object of class \<open>PoopFucker\<close>, with what it writes. \<open>memory\<close> holds the
  elements of the array; \<open>props\<close> holds the properties that an assignment
  \<open>memory[p] = v\<close> with negative \<open>p\<close> creates beside the elements; \<open>stdout\<close> is
  what has been written to standard output, \<open>warnings\<close> counts the calls of
  \<open>console.warn\<close>. The length of the array is taken to stay below JavaScript's
  bound of \<open>2 ^ 32 - 1\<close> elements.
\<close>

record state =
  pointer :: int
  memory :: "jsval list"
  props :: "int \<Rightarrow> jsval"
  stdout :: "jschar list"
  warnings :: nat

definition fresh :: state where
  "fresh = \<lparr>pointer = 0, memory = [Num 0, Null], props = (\<lambda>p. Undefined),
            stdout = [], warnings = 0\<rparr>"

text \<open>\<open>this.memory[p]\<close> as a read: \<open>undefined\<close> where nothing is stored.\<close>

definition mem_get :: "state \<Rightarrow> int \<Rightarrow> jsval" where
  "mem_get s p =
     (if p < 0 then props s p
      else if nat p < length (memory s) then memory s ! nat p
      else Undefined)"

text \<open>
  \<open>this.memory[p] = v\<close>: an element inside the array is replaced, an index past
  the end extends the array over holes (which read as \<open>undefined\<close>), a negative
  key becomes a property and leaves the elements alone.
\<close>

definition mem_set :: "state \<Rightarrow> int \<Rightarrow> jsval \<Rightarrow> state" where
  "mem_set s p v =
     (if p < 0 then s\<lparr>props := (props s)(p := v)\<rparr>
      else if nat p < length (memory s) then s\<lparr>memory := (memory s)[nat p := v]\<rparr>
      else s\<lparr>memory := memory s @ replicate (nat p - length (memory s)) Undefined @ [v]\<rparr>)"

definition mem_push :: "state \<Rightarrow> jsval \<Rightarrow> state" where
  "mem_push s v = s\<lparr>memory := memory s @ [v]\<rparr>"

datatype result = Done state | Failed error state | OutOfFuel state

fun state_of :: "result \<Rightarrow> state" where
  "state_of (Done s) = s"
| "state_of (Failed e s) = s"
| "state_of (OutOfFuel s) = s"

text \<open>The \<open>switch\<close> over the value of an \<open>instruction\<close> node.\<close>

definition exec_instruction :: "instr \<Rightarrow> state \<Rightarrow> result" where
  "exec_instruction v s =
     (if v = INCREMENT_POINTER then
        (let s1 = s\<lparr>pointer := js_inc (pointer s)\<rparr> in
         if mem_get s1 (pointer s1) = Null
         then Done (mem_push (mem_set s1 (pointer s1) (Num 0)) Null)
         else Done s1)
      else if v = DECREMENT_POINTER then Done (s\<lparr>pointer := js_dec (pointer s)\<rparr>)
      else if v = INCREMENT_VALUE then
        Done (mem_set s (pointer s) (incremented (mem_get s (pointer s))))
      else if v = DECREMENT_VALUE then
        Done (mem_set s (pointer s) (decremented (mem_get s (pointer s))))
      else if v = IN then Done (s\<lparr>warnings := warnings s + 1\<rparr>)
      else if v = OUT then
        Done (s\<lparr>stdout := stdout s @ [fromCharCode (mem_get s (pointer s))]\<rparr>)
      else Failed (UndefinedInstruction v) s)"

text \<open>
  The method \<open>do\<close>: \<open>forEach\<close> over the nodes, a thrown error ending the walk
  with the state as it is. The \<open>while\<close> of a loop node may run forever, so each
  execution of a loop body takes one unit of fuel, and \<open>OutOfFuel\<close> returns the
  state at the loop head that could not be served.
\<close>

fun exec :: "nat \<Rightarrow> node list \<Rightarrow> state \<Rightarrow> result" where
  "exec n [] s = Done s"
| "exec n (Simple v # rest) s =
     (case exec_instruction v s of
        Done s' \<Rightarrow> exec n rest s'
      | r \<Rightarrow> r)"
| "exec n (Loop body # rest) s =
     (if mem_get s (pointer s) \<noteq> Num 0 then
        (case n of
           0 \<Rightarrow> OutOfFuel s
         | Suc m \<Rightarrow>
             (case exec m body s of
                Done s' \<Rightarrow> exec m (Loop body # rest) s'
              | r \<Rightarrow> r))
      else exec n rest s)"

text \<open>
  \<open>runCode\<close>: lexing and parsing come first, and an error there is thrown before
  the executor object exists.
\<close>

datatype outcome = Rejected error | Executed result

fun written :: "outcome \<Rightarrow> jschar list" where
  "written (Rejected e) = []"
| "written (Executed r) = stdout (state_of r)"

definition runCode :: "nat \<Rightarrow> jsstring \<Rightarrow> outcome option" where
  "runCode fuel code =
     (case tokenize code of
        None \<Rightarrow> None
      | Some (Inl e) \<Rightarrow> Some (Rejected e)
      | Some (Inr tokens) \<Rightarrow>
          (case parse tokens of
             Inl e \<Rightarrow> Some (Rejected e)
           | Inr instructions \<Rightarrow> Some (Executed (exec fuel instructions fresh))))"

section \<open>Notions used to state the properties\<close>

text \<open>
  A cursor position at which the lexer neither advances nor throws: inside the
  input, no white space, no comment opener, no valid token in the window, and no
  code unit of the window rejected by \<open>forEach\<close>.
\<close>

definition stalled :: "jsstring \<Rightarrow> nat \<Rightarrow> bool" where
  "stalled input current \<longleftrightarrow>
     current < length input \<and> \<not> is_space (input ! current) \<and>
     substr input current 2 \<noteq> slash_star \<and> substr input current 4 \<notin> set validTokens \<and>
     offending 0 (substr input current 4) = None"

text \<open>The source text of a marker sequence: one four-unit token per marker.\<close>

fun encode :: "marker list \<Rightarrow> jsstring" where
  "encode [] = []"
| "encode (m # ms) = keyword @ [glyph m] @ encode ms"

text \<open>The five pairs that the executor's \<open>switch\<close> runs without a warning.\<close>

definition executable :: "instr \<Rightarrow> bool" where
  "executable v \<longleftrightarrow>
     v \<in> set [INCREMENT_POINTER, DECREMENT_POINTER, INCREMENT_VALUE, DECREMENT_VALUE, OUT]"

fun well_formed :: "node list \<Rightarrow> bool" where
  "well_formed [] = True"
| "well_formed (Simple v # ns) = (executable v \<and> well_formed ns)"
| "well_formed (Loop body # ns) = (well_formed body \<and> well_formed ns)"

text \<open>
  The marker sequence that spells an instruction tree, every loop closed; and the
  number of marker pairs in it, a loop node standing for its opening and its
  closing pair.
\<close>

fun glyphs :: "instr \<Rightarrow> marker list" where
  "glyphs (Pair a b) = [a, b]"
| "glyphs (Dangling a) = [a]"

fun emit :: "node list \<Rightarrow> marker list" where
  "emit [] = []"
| "emit (Simple v # ns) = glyphs v @ emit ns"
| "emit (Loop body # ns) = glyphs LOOP_START @ emit body @ glyphs LOOP_END @ emit ns"

fun pair_count :: "node list \<Rightarrow> nat" where
  "pair_count [] = 0"
| "pair_count (Simple v # ns) = 1 + pair_count ns"
| "pair_count (Loop body # ns) = 2 + pair_count body + pair_count ns"

text \<open>
  A chain of loops that are opened one inside the other and never closed, each
  with the closed instructions that follow its opening pair; and the tree the chain
  stands for.
\<close>

fun unclosed :: "node list list \<Rightarrow> marker list" where
  "unclosed [] = []"
| "unclosed (body # inner) = glyphs LOOP_START @ emit body @ unclosed inner"

fun nest :: "node list list \<Rightarrow> node list" where
  "nest [] = []"
| "nest (body # inner) = [Loop (body @ nest inner)]"

text \<open>
  The two ways in which a call of \<open>parseRecursively\<close> that starts at \<open>current\<close>
  can return, with \<open>seg\<close> the instructions it has added. Either it has read the
  closed instructions \<open>seg\<close> and then a \<open>LoopEnd\<close> pair, which it leaves with the
  cursor on the second marker of the pair and the depth one less; or it has read
  the rest of the input, closed instructions and then loops left open, and the
  cursor is past the end.
\<close>

definition closed_at ::
  "marker list \<Rightarrow> nat \<Rightarrow> nat \<Rightarrow> node list \<Rightarrow> nat \<Rightarrow> nat \<Rightarrow> bool" where
  "closed_at tokens current loopDepth seg current' loopDepth' \<longleftrightarrow>
     (\<exists>r. drop current tokens = emit seg @ B # A # r) \<and>
     current' = current + length (emit seg) + 1 \<and> loopDepth = Suc loopDepth'"

definition exhausted_at ::
  "marker list \<Rightarrow> nat \<Rightarrow> nat \<Rightarrow> node list \<Rightarrow> nat \<Rightarrow> nat \<Rightarrow> bool" where
  "exhausted_at tokens current loopDepth seg current' loopDepth' \<longleftrightarrow>
     (\<exists>t0 opn. seg = t0 @ nest opn \<and> well_formed t0 \<and> list_all well_formed opn \<and>
        drop current tokens = emit t0 @ unclosed opn \<and> loopDepth' = loopDepth + length opn) \<and>
     length tokens \<le> current'"

text \<open>
  The shape of the array \<open>memory\<close>: numbers, then one \<open>null\<close>; the pointer at
  most at the last number; no \<open>null\<close> among the properties with negative keys.
\<close>

fun is_number :: "jsval \<Rightarrow> bool" where
  "is_number (Num n) = True"
| "is_number v = False"

definition tape_ok :: "state \<Rightarrow> bool" where
  "tape_ok s \<longleftrightarrow>
     memory s \<noteq> [] \<and> last (memory s) = Null \<and> list_all is_number (butlast (memory s)) \<and>
     pointer s \<le> int (length (memory s)) - 2 \<and> (\<forall>p. props s p \<noteq> Null)"

text \<open>
  The range in which \<open>js_inc\<close> and \<open>js_dec\<close> are the arithmetic of doubles:
  pointer and stored numbers of magnitude at most \<open>2 ^ 53\<close>.
\<close>

definition exact_range :: "state \<Rightarrow> bool" where
  "exact_range s \<longleftrightarrow>
     \<bar>pointer s\<bar> \<le> 2 ^ 53 \<and> (\<forall>n. Num n \<in> set (memory s) \<longrightarrow> \<bar>n\<bar> \<le> 2 ^ 53) \<and>
     (\<forall>p n. props s p = Num n \<longrightarrow> \<bar>n\<bar> \<le> 2 ^ 53)"

text \<open>
  The states of a run that counts the cell at the pointer down from 3: the state
  after \<open>j\<close> decrements.
\<close>

definition countdown :: "state \<Rightarrow> nat \<Rightarrow> state" where
  "countdown s j = (if j = 0 then s else mem_set s (pointer s) (Num (3 - int j)))"

section \<open>The lexer on a truncated token\<close>

lemmas lexer_defs =
  is_space_def substr_def slash_star_def star_slash_def validTokens_def keyword_def
  glyph_def marker_of_def allowed_def

lemma tokenize_loop_stalled_aux:
  assumes "tokenize_loop input current tokens = Some r"
  shows "\<not> stalled input current"
proof (rule tokenize_loop.raw_induct
    [where P = "\<lambda>input current tokens r. \<not> stalled input current", OF _ assms])
  fix loop :: "jsstring \<Rightarrow> nat \<Rightarrow> marker list \<Rightarrow> (error + marker list) option"
  fix input current tokens r
  assume IH: "\<And>input current tokens r.
    loop input current tokens = Some r \<Longrightarrow> \<not> stalled input current"
  assume step: "(if current < length input then
        (if is_space (input ! current) then loop input (current + 1) tokens
         else if substr input current 2 = slash_star then
           (case comment_scan input (current + 1) of
              Inl e \<Rightarrow> Some (Inl e)
            | Inr c \<Rightarrow> loop input (c + 2) tokens)
         else if substr input current 4 \<in> set validTokens then
           loop input (current + 4)
             (tokens @ [marker_of (substr input current 4 ! 3)])
         else
           (case offending 0 (substr input current 4) of
              Some (c, i) \<Rightarrow> Some (Inl (InvalidToken c (current + i + 1)))
            | None \<Rightarrow> loop input current tokens))
      else Some (Inr tokens)) = Some r"
  show "\<not> stalled input current"
  proof
    assume stuck: "stalled input current"
    with step have "loop input current tokens = Some r"
      by (simp add: stalled_def)
    from IH [OF this] stuck show False by simp
  qed
qed

lemma tokenize_loop_stalled:
  assumes "stalled input current"
  shows "tokenize_loop input current tokens = None"
proof (cases "tokenize_loop input current tokens")
  case None
  then show ?thesis .
next
  case (Some r)
  from tokenize_loop_stalled_aux [OF Some] assms show ?thesis by simp
qed

text \<open>
  Claim C2 says that the lexer returns or fails on every input string. On the
  input that consists of the single code unit U+3046, the first unit of the keyword,
  the window is no valid token and \<open>forEach\<close> finds every unit allowed at its index,
  so the loop head is reached again with the same cursor: the run has no result.
  A cursor in that situation is the only way not to return
  (\<open>tokenize_returns_unless_stalled\<close> below).
\<close>

theorem tokenize_diverges_on_keyword_start: "tokenize [0x3046] = None"
  unfolding tokenize_def
  by (rule tokenize_loop_stalled) (simp add: stalled_def lexer_defs)

text \<open>
  Claim C6 says that a character sequence which is neither white space, nor a
  comment, nor a valid four-character token makes the lexer fail with
  \<open>InvalidToken\<close>. The keyword without a marker glyph, at the end of the input, is
  such a sequence; the lexer reports nothing on it and never returns.
\<close>

theorem tokenize_truncated_token_unreported:
  "tokenize [0x3046, 0x3093, 0x3061] = None \<and>
   tokenize [0x3046, 0x3093, 0x3061] \<noteq> Some (Inl (InvalidToken c k))"
proof -
  have "tokenize [0x3046, 0x3093, 0x3061] = None"
    unfolding tokenize_def
    by (rule tokenize_loop_stalled) (simp add: stalled_def lexer_defs)
  then show ?thesis by simp
qed

section \<open>The parser on balanced segments\<close>

lemma drop_eq_Cons2:
  assumes "drop n xs = a # b # r"
  shows "n + 1 < length xs \<and> xs ! n = a \<and> xs ! (n + 1) = b \<and> drop (n + 2) xs = r"
proof -
  from assms have n: "n < length xs" by (cases "n < length xs") auto
  from Cons_nth_drop_Suc [OF n] assms have a: "xs ! n = a" and d1: "drop (Suc n) xs = b # r"
    by auto
  from d1 have n1: "Suc n < length xs" by (cases "Suc n < length xs") auto
  from Cons_nth_drop_Suc [OF n1] d1 have "xs ! Suc n = b" and "drop (Suc (Suc n)) xs = r"
    by auto
  with n1 a show ?thesis by simp
qed

lemma drop_eq_append:
  "drop n xs = ys @ zs \<Longrightarrow> drop (n + length ys) xs = zs"
  by (metis add.commute append_eq_conv_conj drop_drop)

lemma read_instruction_pair:
  "drop current tokens = a # b # r \<Longrightarrow> read_instruction tokens current = Pair a b"
  using drop_eq_Cons2 [of current tokens a b r] by (simp add: read_instruction_def)

lemma parse_end:
  "\<not> current < length tokens \<Longrightarrow>
   parseRecursively tokens instructions current loopDepth = Inr (instructions, current, loopDepth)"
  by (subst parseRecursively.simps) simp

lemma parse_simple:
  "drop current tokens = a # b # r \<Longrightarrow> executable (Pair a b) \<Longrightarrow>
   parseRecursively tokens instructions current loopDepth =
     parseRecursively tokens (instructions @ [Simple (Pair a b)]) (current + 2) loopDepth"
  using drop_eq_Cons2 [of current tokens a b r]
  by (subst parseRecursively.simps) (auto simp: read_instruction_def executable_def)

lemma parse_loop_start:
  "drop current tokens = A # B # r \<Longrightarrow>
   parseRecursively tokens instructions current loopDepth =
     (case parseRecursively tokens [] (current + 2) (loopDepth + 1) of
        Inl e \<Rightarrow> Inl e
      | Inr (body, current', loopDepth') \<Rightarrow>
          parseRecursively tokens (instructions @ [Loop body]) (current' + 1) loopDepth')"
  using drop_eq_Cons2 [of current tokens A B r]
  by (subst parseRecursively.simps) (simp add: read_instruction_def)

lemma parse_loop_end_open:
  "drop current tokens = B # A # r \<Longrightarrow>
   parseRecursively tokens instructions current (Suc loopDepth) =
     Inr (instructions, current + 1, loopDepth)"
  using drop_eq_Cons2 [of current tokens B A r]
  by (subst parseRecursively.simps) (simp add: read_instruction_def)

lemma parse_loop_end_unmatched:
  "drop current tokens = B # A # r \<Longrightarrow>
   parseRecursively tokens instructions current 0 = Inl UnmatchedLoopEnd"
  using drop_eq_Cons2 [of current tokens B A r]
  by (subst parseRecursively.simps) (simp add: read_instruction_def)

lemma parse_input:
  "drop current tokens = C # A # r \<Longrightarrow>
   parseRecursively tokens instructions current loopDepth = Inl UnsupportedInput"
  using drop_eq_Cons2 [of current tokens C A r]
  by (subst parseRecursively.simps) (simp add: read_instruction_def)

lemma parse_balanced:
  "well_formed t \<Longrightarrow> drop current tokens = emit t @ r \<Longrightarrow>
   parseRecursively tokens instructions current loopDepth =
     parseRecursively tokens (instructions @ t) (current + length (emit t)) loopDepth"
proof (induction t arbitrary: instructions current loopDepth r rule: emit.induct)
  case 1
  then show ?case by simp
next
  case (2 v ns)
  from "2.prems"(1) obtain a b where v: "v = Pair a b"
    by (cases v) (auto simp: executable_def)
  from "2.prems" v have d: "drop current tokens = a # b # emit ns @ r" and ex: "executable (Pair a b)"
    by simp_all
  from drop_eq_Cons2 [OF d] have d2: "drop (current + 2) tokens = emit ns @ r" by simp
  from "2.prems"(1) have wf: "well_formed ns" by simp
  show ?case
    using parse_simple [OF d ex, of instructions loopDepth]
      "2.IH" [OF wf d2, of "instructions @ [Simple (Pair a b)]" loopDepth] v
    by (simp add: add.assoc)
next
  case (3 body ns)
  from "3.prems" have d: "drop current tokens = A # B # emit body @ B # A # emit ns @ r"
    and wfb: "well_formed body" and wfn: "well_formed ns"
    by simp_all
  from drop_eq_Cons2 [OF d] have d2: "drop (current + 2) tokens = emit body @ B # A # emit ns @ r"
    by simp
  from drop_eq_append [OF d2]
  have d3: "drop (current + 2 + length (emit body)) tokens = B # A # emit ns @ r" .
  from drop_eq_Cons2 [OF d3]
  have d4: "drop (current + 2 + length (emit body) + 2) tokens = emit ns @ r" by simp
  have inner: "parseRecursively tokens [] (current + 2) (loopDepth + 1) =
      Inr (body, current + 2 + length (emit body) + 1, loopDepth)"
    using "3.IH"(1) [OF wfb d2, of "[]" "loopDepth + 1"] parse_loop_end_open [OF d3, of body loopDepth]
    by simp
  show ?case
    using parse_loop_start [OF d, of instructions loopDepth] inner
      "3.IH"(2) [OF wfn, of "current + 2 + length (emit body) + 2" r "instructions @ [Loop body]" loopDepth] d4
    by (simp add: add.assoc)
qed

section \<open>Round trip of well-formed trees\<close>

lemma tokenize_loop_end:
  "\<not> current < length input \<Longrightarrow> tokenize_loop input current tokens = Some (Inr tokens)"
  by (subst tokenize_loop.simps) simp

lemma tokenize_loop_token:
  "current < length input \<Longrightarrow> \<not> is_space (input ! current) \<Longrightarrow>
   substr input current 2 \<noteq> slash_star \<Longrightarrow>
   substr input current 4 \<in> set validTokens \<Longrightarrow>
   tokenize_loop input current tokens =
     tokenize_loop input (current + 4) (tokens @ [marker_of (substr input current 4 ! 3)])"
  by (subst tokenize_loop.simps) simp

lemma marker_of_glyph: "marker_of (glyph m) = m"
  by (cases m) (simp_all add: marker_of_def glyph_def)

lemma tokenize_loop_encode:
  "tokenize_loop (pre @ encode ms) (length pre) tokens = Some (Inr (tokens @ ms))"
proof (induction ms arbitrary: pre tokens)
  case Nil
  then show ?case by (simp add: tokenize_loop_end)
next
  case (Cons m ms)
  let ?input = "pre @ encode (m # ms)"
  have inside: "length pre < length ?input" by (simp add: keyword_def)
  have first: "?input ! length pre = 0x3046" by (simp add: keyword_def nth_append)
  have nospace: "\<not> is_space (?input ! length pre)"
    unfolding first by (simp add: is_space_def)
  have nocomment: "substr ?input (length pre) 2 \<noteq> slash_star"
    by (simp add: substr_def keyword_def slash_star_def)
  have window: "substr ?input (length pre) 4 = keyword @ [glyph m]"
    by (simp add: substr_def keyword_def)
  have valid: "substr ?input (length pre) 4 \<in> set validTokens"
    unfolding window by (cases m) (simp_all add: validTokens_def)
  have pushed: "marker_of (substr ?input (length pre) 4 ! 3) = m"
    unfolding window by (simp add: keyword_def marker_of_glyph)
  have "tokenize_loop ?input (length pre) tokens =
      tokenize_loop ?input (length pre + 4) (tokens @ [m])"
    using tokenize_loop_token [OF inside nospace nocomment valid, of tokens] pushed by simp
  also have "?input = (pre @ keyword @ [glyph m]) @ encode ms" by simp
  also have "length pre + 4 = length (pre @ keyword @ [glyph m])" by (simp add: keyword_def)
  also have "tokenize_loop ((pre @ keyword @ [glyph m]) @ encode ms)
      (length (pre @ keyword @ [glyph m])) (tokens @ [m]) = Some (Inr ((tokens @ [m]) @ ms))"
    by (rule Cons.IH)
  finally show ?case by simp
qed

lemma tokenize_encode: "tokenize (encode ms) = Some (Inr ms)"
  using tokenize_loop_encode [of "[]" ms "[]"] by (simp add: tokenize_def)

text \<open>
  The lexer returns, with a marker sequence or an error, on every input in which
  no cursor position is stalled.
\<close>

lemma comment_scan_advances: "comment_scan input c = Inr c' \<Longrightarrow> c < c'"
proof (induction input c rule: comment_scan.induct)
  case (1 input current)
  show ?case
  proof (cases "substr input (current + 1) 2 \<noteq> star_slash")
    case False
    with "1.prems" show ?thesis
      by (subst (asm) comment_scan.simps) simp
  next
    case True
    with "1.prems" have more: "\<not> length input \<le> current + 1 + 2"
      and rec: "comment_scan input (current + 1) = Inr c'"
      by (subst (asm) comment_scan.simps, simp split: if_splits)+
    from "1.IH" [OF True more rec] show ?thesis by simp
  qed
qed

lemma tokenize_loop_returns:
  assumes free: "\<And>c. \<not> stalled input c"
  shows "\<exists>r. tokenize_loop input current tokens = Some r"
proof (induction "length input - current" arbitrary: current tokens rule: less_induct)
  case less
  show ?case
  proof (cases "current < length input")
    case False
    then show ?thesis by (simp add: tokenize_loop_end)
  next
    case inside: True
    show ?thesis
    proof (cases "is_space (input ! current)")
      case True
      from inside have "length input - (current + 1) < length input - current" by arith
      from less [OF this, of tokens] inside True show ?thesis
        by (subst tokenize_loop.simps) simp
    next
      case nospace: False
      show ?thesis
      proof (cases "substr input current 2 = slash_star")
        case True
        show ?thesis
        proof (cases "comment_scan input (current + 1)")
          case (Inl e)
          with inside nospace True show ?thesis
            by (subst tokenize_loop.simps) simp
        next
          case (Inr c)
          from comment_scan_advances [OF Inr] inside
          have "length input - (c + 2) < length input - current" by arith
          from less [OF this, of tokens] inside nospace True Inr show ?thesis
            by (subst tokenize_loop.simps) simp
        qed
      next
        case nocomment: False
        show ?thesis
        proof (cases "substr input current 4 \<in> set validTokens")
          case True
          from inside have "length input - (current + 4) < length input - current" by arith
          from less [OF this, of "tokens @ [marker_of (substr input current 4 ! 3)]"]
            inside nospace nocomment True
          show ?thesis by (subst tokenize_loop.simps) simp
        next
          case notoken: False
          with free [of current] inside nospace nocomment
          obtain c i where "offending 0 (substr input current 4) = Some (c, i)"
            by (auto simp: stalled_def)
          with inside nospace nocomment notoken show ?thesis
            by (subst tokenize_loop.simps) simp
        qed
      qed
    qed
  qed
qed

lemma tokenize_returns_unless_stalled:
  "(\<And>c. \<not> stalled input c) \<Longrightarrow> \<exists>r. tokenize input = Some r"
  unfolding tokenize_def by (rule tokenize_loop_returns)

lemma emit_append: "emit (xs @ ys) = emit xs @ emit ys"
  by (induction xs rule: emit.induct) simp_all

lemma length_emit: "well_formed t \<Longrightarrow> length (emit t) = 2 * pair_count t"
  by (induction t rule: emit.induct) (auto simp: executable_def)

lemma parse_emit: 
  assumes "well_formed t" shows "parse (emit t) = Inr t"
proof -
  have "parseRecursively (emit t) [] 0 0 = parseRecursively (emit t) ([] @ t) (0 + length (emit t)) 0"
    by (rule parse_balanced [OF assms, of _ _ "[]"]) simp
  also have "\<dots> = Inr (t, length (emit t), 0)"
    by (simp add: parse_end)
  finally show ?thesis using length_emit [OF assms] by (simp add: parse_def)
qed

section \<open>The parser at the end of the input and on rejected pairs\<close>

lemma even_length_emit: "well_formed t \<Longrightarrow> even (length (emit t))"
  by (simp add: length_emit)

lemma even_length_unclosed: "list_all well_formed opn \<Longrightarrow> even (length (unclosed opn))"
  by (induction opn) (simp_all add: even_length_emit)

lemma parse_unclosed:
  "well_formed t0 \<Longrightarrow> list_all well_formed opn \<Longrightarrow>
   drop current tokens = emit t0 @ unclosed opn \<Longrightarrow>
   \<exists>c. parseRecursively tokens instructions current loopDepth =
         Inr (instructions @ t0 @ nest opn, c, loopDepth + length opn) \<and> length tokens \<le> c"
proof (induction opn arbitrary: t0 instructions current loopDepth)
  case Nil
  from Nil.prems(3) have d: "drop current tokens = emit t0 @ []" by simp
  from Nil.prems(3) have "length tokens - current = length (emit t0)"
    by (metis length_drop unclosed.simps(1) append_Nil2)
  then have past: "\<not> current + length (emit t0) < length tokens" by arith
  show ?case
    using parse_balanced [OF Nil.prems(1) d, of instructions loopDepth] past
    by (simp add: parse_end)
next
  case (Cons body opn)
  let ?c1 = "current + length (emit t0)"
  from Cons.prems(2) have wfb: "well_formed body" and wfo: "list_all well_formed opn"
    by simp_all
  from Cons.prems(3)
  have d: "drop current tokens = emit t0 @ (A # B # emit body @ unclosed opn)" by simp
  from drop_eq_append [OF d]
  have d1: "drop ?c1 tokens = A # B # emit body @ unclosed opn" .
  from drop_eq_Cons2 [OF d1]
  have d2: "drop (?c1 + 2) tokens = emit body @ unclosed opn" by simp
  from Cons.IH [OF wfb wfo d2, of "[]" "loopDepth + 1"]
  obtain c where inner: "parseRecursively tokens [] (?c1 + 2) (loopDepth + 1) =
      Inr (body @ nest opn, c, loopDepth + 1 + length opn)" and c: "length tokens \<le> c"
    by auto
  have "parseRecursively tokens instructions current loopDepth =
      parseRecursively tokens (instructions @ t0) ?c1 loopDepth"
    by (rule parse_balanced [OF Cons.prems(1) d])
  also have "\<dots> = parseRecursively tokens ((instructions @ t0) @ [Loop (body @ nest opn)])
      (c + 1) (loopDepth + 1 + length opn)"
    using parse_loop_start [OF d1, of "instructions @ t0" loopDepth] inner by simp
  also have "\<dots> = Inr ((instructions @ t0) @ [Loop (body @ nest opn)], c + 1,
      loopDepth + 1 + length opn)"
    using c by (simp add: parse_end)
  finally show ?case using c by simp
qed

lemma parse_unclosed_input:
  "well_formed t0 \<Longrightarrow> list_all well_formed opn \<Longrightarrow>
   drop current tokens = emit t0 @ unclosed opn @ C # A # r \<Longrightarrow>
   parseRecursively tokens instructions current loopDepth = Inl UnsupportedInput"
proof (induction opn arbitrary: t0 instructions current loopDepth)
  case Nil
  from Nil.prems(3) have d: "drop current tokens = emit t0 @ (C # A # r)" by simp
  from drop_eq_append [OF d]
  have d1: "drop (current + length (emit t0)) tokens = C # A # r" .
  show ?case
    using parse_balanced [OF Nil.prems(1) d, of instructions loopDepth]
      parse_input [OF d1, of "instructions @ t0" loopDepth]
    by simp
next
  case (Cons body opn)
  let ?c1 = "current + length (emit t0)"
  from Cons.prems(2) have wfb: "well_formed body" and wfo: "list_all well_formed opn"
    by simp_all
  from Cons.prems(3)
  have d: "drop current tokens = emit t0 @ (A # B # emit body @ unclosed opn @ C # A # r)"
    by simp
  from drop_eq_append [OF d]
  have d1: "drop ?c1 tokens = A # B # emit body @ unclosed opn @ C # A # r" .
  from drop_eq_Cons2 [OF d1]
  have d2: "drop (?c1 + 2) tokens = emit body @ unclosed opn @ C # A # r" by simp
  have inner: "parseRecursively tokens [] (?c1 + 2) (loopDepth + 1) = Inl UnsupportedInput"
    by (rule Cons.IH [OF wfb wfo d2])
  show ?case
    using parse_balanced [OF Cons.prems(1) d, of instructions loopDepth]
      parse_loop_start [OF d1, of "instructions @ t0" loopDepth] inner
    by simp
qed

section \<open>What a successful parse returns\<close>

lemma well_formed_append: "well_formed (xs @ ys) \<longleftrightarrow> well_formed xs \<and> well_formed ys"
  by (induction xs rule: well_formed.induct) auto

lemma not_rejected_executable:
  "Pair a b \<noteq> Pair B B \<Longrightarrow> Pair a b \<noteq> IN \<Longrightarrow> Pair a b \<noteq> LOOP_END \<Longrightarrow>
   Pair a b \<noteq> LOOP_START \<Longrightarrow> executable (Pair a b)"
  by (cases a; cases b) (simp_all add: executable_def)

lemma well_formed_nest: "list_all well_formed opn \<Longrightarrow> well_formed (nest opn)"
  by (induction opn) (simp_all add: well_formed_append)

lemma drop_pair:
  "current + 1 < length tokens \<Longrightarrow>
   drop current tokens = tokens ! current # tokens ! (current + 1) # drop (current + 2) tokens"
  by (metis Cons_nth_drop_Suc Suc_eq_plus1 Suc_lessD add_2_eq_Suc')

lemma exhausted_nil:
  "length tokens \<le> current \<Longrightarrow> exhausted_at tokens current loopDepth [] current loopDepth"
  unfolding exhausted_at_def
  by (auto intro!: exI [of _ "[]"])

lemma closed_nil:
  "drop current tokens = B # A # r \<Longrightarrow>
   closed_at tokens current (Suc loopDepth) [] (current + 1) loopDepth"
  unfolding closed_at_def by auto

lemma closed_simple:
  assumes d: "drop current tokens = a # b # drop (current + 2) tokens"
    and c: "closed_at tokens (current + 2) loopDepth seg current' loopDepth'"
  shows "closed_at tokens current loopDepth (Simple (Pair a b) # seg) current' loopDepth'"
  using c d unfolding closed_at_def by auto

lemma exhausted_simple:
  assumes d: "drop current tokens = a # b # drop (current + 2) tokens"
    and ex: "executable (Pair a b)"
    and c: "exhausted_at tokens (current + 2) loopDepth seg current' loopDepth'"
  shows "exhausted_at tokens current loopDepth (Simple (Pair a b) # seg) current' loopDepth'"
proof -
  from c obtain t0 opn where s: "seg = t0 @ nest opn" and w: "well_formed t0"
    and o: "list_all well_formed opn"
    and dd: "drop (current + 2) tokens = emit t0 @ unclosed opn"
    and l: "loopDepth' = loopDepth + length opn" and e: "length tokens \<le> current'"
    unfolding exhausted_at_def by blast
  have "Simple (Pair a b) # seg = (Simple (Pair a b) # t0) @ nest opn" using s by simp
  moreover have "well_formed (Simple (Pair a b) # t0)" using w ex by simp
  moreover have "drop current tokens = emit (Simple (Pair a b) # t0) @ unclosed opn"
    using d dd by simp
  ultimately show ?thesis using o l e unfolding exhausted_at_def by blast
qed

lemma closed_loop:
  assumes d: "drop current tokens = A # B # drop (current + 2) tokens"
    and inner: "closed_at tokens (current + 2) (Suc loopDepth) body c loopDepth"
    and rest: "closed_at tokens (c + 1) loopDepth seg current' loopDepth'"
  shows "closed_at tokens current loopDepth (Loop body # seg) current' loopDepth'"
proof -
  from inner obtain r1 where d1: "drop (current + 2) tokens = emit body @ B # A # r1"
    and c: "c = current + 2 + length (emit body) + 1"
    unfolding closed_at_def by blast
  from drop_eq_append [OF d1] have "drop (current + 2 + length (emit body)) tokens = B # A # r1" .
  from drop_eq_Cons2 [OF this] c have r1: "drop (c + 1) tokens = r1" by (simp add: add.assoc)
  from rest r1 obtain r2 where d2: "r1 = emit seg @ B # A # r2"
    and c': "current' = c + 1 + length (emit seg) + 1" and l: "loopDepth = Suc loopDepth'"
    unfolding closed_at_def by auto
  have "drop current tokens = emit (Loop body # seg) @ B # A # r2"
    using d d1 d2 by simp
  moreover have "current' = current + length (emit (Loop body # seg)) + 1"
    using c c' by simp
  ultimately show ?thesis using l unfolding closed_at_def by blast
qed

lemma exhausted_loop_closed:
  assumes d: "drop current tokens = A # B # drop (current + 2) tokens"
    and wfb: "well_formed body"
    and inner: "closed_at tokens (current + 2) (Suc loopDepth) body c loopDepth"
    and rest: "exhausted_at tokens (c + 1) loopDepth seg current' loopDepth'"
  shows "exhausted_at tokens current loopDepth (Loop body # seg) current' loopDepth'"
proof -
  from inner obtain r1 where d1: "drop (current + 2) tokens = emit body @ B # A # r1"
    and c: "c = current + 2 + length (emit body) + 1"
    unfolding closed_at_def by blast
  from drop_eq_append [OF d1] have "drop (current + 2 + length (emit body)) tokens = B # A # r1" .
  from drop_eq_Cons2 [OF this] c have r1: "drop (c + 1) tokens = r1" by (simp add: add.assoc)
  from rest r1 obtain t0 opn where s: "seg = t0 @ nest opn" and w: "well_formed t0"
    and o: "list_all well_formed opn" and dd: "r1 = emit t0 @ unclosed opn"
    and l: "loopDepth' = loopDepth + length opn" and e: "length tokens \<le> current'"
    unfolding exhausted_at_def by auto
  have "Loop body # seg = (Loop body # t0) @ nest opn" using s by simp
  moreover have "well_formed (Loop body # t0)" using w wfb by simp
  moreover have "drop current tokens = emit (Loop body # t0) @ unclosed opn"
    using d d1 dd by simp
  ultimately show ?thesis using o l e unfolding exhausted_at_def by blast
qed

lemma exhausted_loop_open:
  assumes d: "drop current tokens = A # B # drop (current + 2) tokens"
    and inner: "exhausted_at tokens (current + 2) (Suc loopDepth) body c loopDepth'"
  shows "exhausted_at tokens current loopDepth [Loop body] (c + 1) loopDepth'"
proof -
  from inner obtain t0 opn where s: "body = t0 @ nest opn" and w: "well_formed t0"
    and o: "list_all well_formed opn"
    and dd: "drop (current + 2) tokens = emit t0 @ unclosed opn"
    and l: "loopDepth' = Suc loopDepth + length opn" and e: "length tokens \<le> c"
    unfolding exhausted_at_def by blast
  have "[Loop body] = [] @ nest (t0 # opn)" using s by simp
  moreover have "list_all well_formed (t0 # opn)" using w o by simp
  moreover have "drop current tokens = emit [] @ unclosed (t0 # opn)" using d dd by simp
  moreover have "loopDepth' = loopDepth + length (t0 # opn)" using l by simp
  moreover have "well_formed []" by simp
  ultimately show ?thesis using e unfolding exhausted_at_def
    by (intro conjI exI [of _ "[]"] exI [of _ "t0 # opn"]) simp_all
qed

lemma parse_shape:
  "even (length tokens) \<Longrightarrow> even current \<or> length tokens \<le> current \<Longrightarrow>
   parseRecursively tokens instructions current loopDepth = Inr (t, current', loopDepth') \<Longrightarrow>
   \<exists>seg. t = instructions @ seg \<and> well_formed seg \<and>
     (odd current' \<or> length tokens \<le> current') \<and>
     (closed_at tokens current loopDepth seg current' loopDepth' \<or>
      exhausted_at tokens current loopDepth seg current' loopDepth')"
proof (induction tokens instructions current loopDepth arbitrary: t current' loopDepth'
    rule: parseRecursively.induct)
  case (1 tokens instructions current loopDepth)
  show ?case
  proof (cases "current < length tokens")
    case False
    with "1.prems"(3) have "t = instructions" "current' = current" "loopDepth' = loopDepth"
      by (simp_all add: parse_end)
    with False exhausted_nil [of tokens current loopDepth] show ?thesis
      by (intro exI [of _ "[]"]) simp
  next
    case True
    with "1.prems"(2) have ev: "even current" by simp
    with True "1.prems"(1) have two: "current + 1 < length tokens"
      by (metis Suc_eq_plus1 Suc_lessI even_Suc)
    define a b where "a = tokens ! current" and "b = tokens ! (current + 1)"
    from two have ri: "read_instruction tokens current = Pair a b"
      by (simp add: read_instruction_def a_def b_def)
    from drop_pair [OF two]
    have dp: "drop current tokens = a # b # drop (current + 2) tokens"
      by (simp add: a_def b_def)
    from ev have ev2: "even (current + 2) \<or> length tokens \<le> current + 2" by simp
    from parseRecursively.simps [of tokens instructions current loopDepth] "1.prems"(3)
    have run: "(if Pair a b = Pair B B then Inl InvalidInstructionPair
         else if Pair a b = IN then Inl UnsupportedInput
         else if Pair a b = LOOP_END then
           (if loopDepth > 0 then Inr (instructions, current + 1, loopDepth - 1)
            else Inl UnmatchedLoopEnd)
         else if Pair a b = LOOP_START then
           (case parseRecursively tokens [] (current + 2) (loopDepth + 1) of
              Inl e \<Rightarrow> Inl e
            | Inr (body, current', loopDepth') \<Rightarrow>
                parseRecursively tokens (instructions @ [Loop body]) (current' + 1) loopDepth')
         else parseRecursively tokens (instructions @ [Simple (Pair a b)])
                (current + 2) loopDepth) = Inr (t, current', loopDepth')"
      by (simp only: True if_True ri)
    then have nbb: "Pair a b \<noteq> Pair B B" and nin: "Pair a b \<noteq> IN"
      by (auto split: if_splits)
    show ?thesis
    proof (cases "Pair a b = LOOP_END")
      case True
      with run nbb nin have res: "t = instructions" "current' = current + 1"
        "loopDepth = Suc loopDepth'"
        by (auto split: if_splits)
      from True dp have "drop current tokens = B # A # drop (current + 2) tokens" by simp
      from closed_nil [OF this, of loopDepth'] res ev show ?thesis
        by (intro exI [of _ "[]"]) simp
    next
      case nle: False
      show ?thesis
      proof (cases "Pair a b = LOOP_START")
        case True
        with run nbb nin nle obtain body c d where
          inner: "parseRecursively tokens [] (current + 2) (loopDepth + 1) = Inr (body, c, d)"
          and outer: "parseRecursively tokens (instructions @ [Loop body]) (c + 1) d =
            Inr (t, current', loopDepth')"
          by (auto split: sum.splits)
        from True dp have dl: "drop current tokens = A # B # drop (current + 2) tokens"
          by simp
        from \<open>current < length tokens\<close> ri nbb nin nle True
        have c1: "read_instruction tokens current \<noteq> Pair B B"
          "read_instruction tokens current \<noteq> IN"
          "read_instruction tokens current \<noteq> LOOP_END"
          "read_instruction tokens current = LOOP_START"
          by simp_all
        from "1.IH"(1) [OF \<open>current < length tokens\<close> c1 "1.prems"(1) ev2 inner]
        have wfb: "well_formed body" and cpos: "odd c \<or> length tokens \<le> c"
          and ishape: "closed_at tokens (current + 2) (loopDepth + 1) body c d \<or>
            exhausted_at tokens (current + 2) (loopDepth + 1) body c d"
          by auto
        from cpos have cnext: "even (c + 1) \<or> length tokens \<le> c + 1" by auto
        from "1.IH"(2) [OF \<open>current < length tokens\<close> c1 inner refl refl "1.prems"(1) cnext outer]
        obtain seg where t: "t = (instructions @ [Loop body]) @ seg" and wfs: "well_formed seg"
          and cpos': "odd current' \<or> length tokens \<le> current'"
          and oshape: "closed_at tokens (c + 1) d seg current' loopDepth' \<or>
            exhausted_at tokens (c + 1) d seg current' loopDepth'"
          by auto
        from ishape show ?thesis
        proof
          assume ic: "closed_at tokens (current + 2) (loopDepth + 1) body c d"
          then have dd: "d = loopDepth" by (simp add: closed_at_def)
          from ic dd have ic': "closed_at tokens (current + 2) (Suc loopDepth) body c loopDepth"
            by simp
          from oshape dd
          have "closed_at tokens current loopDepth (Loop body # seg) current' loopDepth' \<or>
            exhausted_at tokens current loopDepth (Loop body # seg) current' loopDepth'"
            using closed_loop [OF dl ic'] exhausted_loop_closed [OF dl wfb ic'] by blast
          with t wfb wfs cpos' show ?thesis
            by (intro exI [of _ "Loop body # seg"]) simp
        next
          assume ie: "exhausted_at tokens (current + 2) (loopDepth + 1) body c d"
          then have past: "length tokens \<le> c" by (simp add: exhausted_at_def)
          with outer have res: "t = instructions @ [Loop body]" "current' = c + 1"
            "loopDepth' = d"
            by (simp_all add: parse_end)
          from ie have "exhausted_at tokens (current + 2) (Suc loopDepth) body c d" by simp
          from exhausted_loop_open [OF dl this] res wfb past show ?thesis
            by (intro exI [of _ "[Loop body]"]) simp
        qed
      next
        case nls: False
        with run nbb nin nle
        have rest: "parseRecursively tokens (instructions @ [Simple (Pair a b)])
                (current + 2) loopDepth = Inr (t, current', loopDepth')"
          by (auto split: if_splits)
        from \<open>current < length tokens\<close> ri nbb nin nle nls
        have c1: "read_instruction tokens current \<noteq> Pair B B"
          "read_instruction tokens current \<noteq> IN"
          "read_instruction tokens current \<noteq> LOOP_END"
          "read_instruction tokens current \<noteq> LOOP_START"
          by simp_all
        from not_rejected_executable [OF nbb nin nle nls] have ex: "executable (Pair a b)" .
        from rest have rest': "parseRecursively tokens
            (instructions @ [Simple (read_instruction tokens current)])
            (current + 2) loopDepth = Inr (t, current', loopDepth')"
          by (simp add: ri)
        from "1.IH"(3) [OF \<open>current < length tokens\<close> c1 "1.prems"(1) ev2 rest']
        obtain seg where t: "t = (instructions @ [Simple (Pair a b)]) @ seg"
          and wfs: "well_formed seg"
          and cpos': "odd current' \<or> length tokens \<le> current'"
          and oshape: "closed_at tokens (current + 2) loopDepth seg current' loopDepth' \<or>
            exhausted_at tokens (current + 2) loopDepth seg current' loopDepth'"
          by (auto simp: ri)
        from oshape
        have "closed_at tokens current loopDepth (Simple (Pair a b) # seg) current' loopDepth' \<or>
            exhausted_at tokens current loopDepth (Simple (Pair a b) # seg) current' loopDepth'"
          using closed_simple [OF dp] exhausted_simple [OF dp ex] by blast
        with t wfs ex cpos' show ?thesis
          by (intro exI [of _ "Simple (Pair a b) # seg"]) simp
      qed
    qed
  qed
qed

lemma parse_success_shape:
  assumes "parse tokens = Inr t"
  shows "\<exists>t0 opn. tokens = emit t0 @ unclosed opn \<and> t = t0 @ nest opn \<and>
           well_formed t0 \<and> list_all well_formed opn"
proof -
  from assms have ev: "even (length tokens)"
    by (auto simp: parse_def split: if_splits)
  from assms obtain c d where run: "parseRecursively tokens [] 0 0 = Inr (t, c, d)"
    by (auto simp: parse_def split: if_splits sum.splits)
  from parse_shape [OF ev _ run]
  have "closed_at tokens 0 0 t c d \<or> exhausted_at tokens 0 0 t c d" by auto
  then have "exhausted_at tokens 0 0 t c d" by (auto simp: closed_at_def)
  then show ?thesis unfolding exhausted_at_def by auto
qed

lemma parse_run_shape:
  assumes ev: "even (length tokens)"
    and run: "parseRecursively tokens [] 0 0 = Inr (t, c, d)"
  shows "\<exists>t0 opn. tokens = emit t0 @ unclosed opn \<and> t = t0 @ nest opn \<and>
           well_formed t0 \<and> list_all well_formed opn \<and> d = length opn"
proof -
  from parse_shape [OF ev _ run]
  have "closed_at tokens 0 0 t c d \<or> exhausted_at tokens 0 0 t c d" by auto
  then have "exhausted_at tokens 0 0 t c d" by (auto simp: closed_at_def)
  then show ?thesis unfolding exhausted_at_def by auto
qed

lemma close_innermost:
  "well_formed t0 \<Longrightarrow> list_all well_formed opn \<Longrightarrow> opn \<noteq> [] \<Longrightarrow>
   \<exists>t0' opn'. emit t0 @ unclosed opn @ [B, A] = emit t0' @ unclosed opn' \<and>
      t0 @ nest opn = t0' @ nest opn' \<and> well_formed t0' \<and> list_all well_formed opn' \<and>
      Suc (length opn') = length opn"
proof (induction opn arbitrary: t0)
  case Nil
  then show ?case by simp
next
  case (Cons b opn)
  show ?case
  proof (cases "opn = []")
    case True
    have "emit t0 @ unclosed (b # opn) @ [B, A] = emit (t0 @ [Loop b]) @ unclosed []"
      using True by (simp add: emit_append)
    moreover have "t0 @ nest (b # opn) = (t0 @ [Loop b]) @ nest []" using True by simp
    moreover have "well_formed (t0 @ [Loop b])"
      using Cons.prems by (simp add: well_formed_append)
    ultimately show ?thesis using True
      by (intro exI [of _ "t0 @ [Loop b]"] exI [of _ "[]"]) simp
  next
    case False
    from Cons.prems have wb: "well_formed b" and wo: "list_all well_formed opn" by simp_all
    from Cons.IH [OF wb wo False] obtain b' opn' where
      e: "emit b @ unclosed opn @ [B, A] = emit b' @ unclosed opn'"
      and n: "b @ nest opn = b' @ nest opn'" and wb': "well_formed b'"
      and wo': "list_all well_formed opn'" and l: "Suc (length opn') = length opn"
      by blast
    have "emit t0 @ unclosed (b # opn) @ [B, A] = emit t0 @ unclosed (b' # opn')"
      using e by simp
    moreover have "t0 @ nest (b # opn) = t0 @ nest (b' # opn')" using n by simp
    ultimately show ?thesis using Cons.prems(1) wb' wo' l
      by (intro exI [of _ t0] exI [of _ "b' # opn'"]) simp
  qed
qed

lemma prefix_then_pair:
  assumes "n + 1 < length tokens" and "tokens ! n = a" and "tokens ! (n + 1) = b"
  shows "tokens = take n tokens @ a # b # drop (n + 2) tokens"
    and "take (n + 2) tokens = take n tokens @ [a, b]"
proof -
  from drop_pair [OF assms(1)] assms(2,3)
  have d: "drop n tokens = a # b # drop (n + 2) tokens" by simp
  show "tokens = take n tokens @ a # b # drop (n + 2) tokens"
    using append_take_drop_id [of n tokens] d by simp
  have "take (n + 2) tokens = take n tokens @ take 2 (drop n tokens)"
    by (rule take_add)
  with d show "take (n + 2) tokens = take n tokens @ [a, b]" by simp
qed

lemma parse_well_formed: "parse tokens = Inr t \<Longrightarrow> well_formed t"
  using parse_success_shape [of tokens t]
  by (auto simp: well_formed_append well_formed_nest)

section \<open>The executor: failures, fuel and loops\<close>

lemma exec_instruction_executable:
  "executable v \<Longrightarrow> \<exists>s'. exec_instruction v s = Done s' \<and> warnings s' = warnings s"
  by (auto simp: executable_def exec_instruction_def Let_def mem_set_def mem_push_def)

lemma exec_well_formed:
  "well_formed t \<Longrightarrow> exec n t s \<noteq> Failed e s' \<and> warnings (state_of (exec n t s)) = warnings s"
proof (induction n t s rule: exec.induct)
  case (1 n s)
  then show ?case by simp
next
  case (2 n v rest s)
  from "2.prems" have ex: "executable v" and wf: "well_formed rest" by simp_all
  from exec_instruction_executable [OF ex, of s]
  obtain s1 where s1: "exec_instruction v s = Done s1" "warnings s1 = warnings s" by auto
  from "2.IH" [OF s1(1) wf] s1 show ?case by simp
next
  case (3 n body rest s)
  from "3.prems" have wfb: "well_formed body" and wfr: "well_formed rest" by simp_all
  show ?case
  proof (cases "mem_get s (pointer s) \<noteq> Num 0")
    case False
    with "3.IH"(3) [OF False wfr] show ?thesis by simp
  next
    case True
    show ?thesis
    proof (cases n)
      case 0
      with True show ?thesis by simp
    next
      case (Suc m)
      note ihb = "3.IH"(1) [OF True Suc wfb]
      show ?thesis
      proof (cases "exec m body s")
        case (Done s1)
        from "3.IH"(2) [OF True Suc Done "3.prems"] ihb Done True Suc
        show ?thesis by simp
      next
        case (Failed e1 s1)
        with ihb True Suc show ?thesis by simp
      next
        case (OutOfFuel s1)
        with ihb True Suc show ?thesis by simp
      qed
    qed
  qed
qed

lemma exec_more_fuel:
  "exec n t s = Done s' \<Longrightarrow> exec (n + k) t s = Done s'"
proof (induction n t s arbitrary: s' rule: exec.induct)
  case (1 n s)
  then show ?case by simp
next
  case (2 n v rest s)
  then show ?case by (auto split: result.splits)
next
  case (3 n body rest s)
  show ?case
  proof (cases "mem_get s (pointer s) \<noteq> Num 0")
    case False
    with "3.IH"(3) "3.prems" show ?thesis by simp
  next
    case True
    with "3.prems" obtain m where n: "n = Suc m" by (cases n) auto
    with True "3.prems" obtain s1 where b: "exec m body s = Done s1"
      and r: "exec m (Loop body # rest) s1 = Done s'"
      by (auto split: result.splits)
    from "3.IH"(1) [OF True n b] "3.IH"(2) [OF True n b r] True n
    show ?thesis by simp
  qed
qed

lemma loop_iterations:
  "(\<And>j. j < k \<Longrightarrow> mem_get (\<sigma> j) (pointer (\<sigma> j)) \<noteq> Num 0 \<and> exec m body (\<sigma> j) = Done (\<sigma> (Suc j))) \<Longrightarrow>
   mem_get (\<sigma> k) (pointer (\<sigma> k)) = Num 0 \<Longrightarrow>
   exec (m + k) (Loop body # rest) (\<sigma> 0) = exec m rest (\<sigma> k)"
proof (induction k arbitrary: \<sigma>)
  case 0
  then show ?case by simp
next
  case (Suc k)
  from Suc.prems(1) [of 0] have c0: "mem_get (\<sigma> 0) (pointer (\<sigma> 0)) \<noteq> Num 0"
    and b0: "exec m body (\<sigma> 0) = Done (\<sigma> (Suc 0))" by simp_all
  from exec_more_fuel [OF b0, of k] have b0': "exec (m + k) body (\<sigma> 0) = Done (\<sigma> (Suc 0))" .
  have "exec (m + k) (Loop body # rest) ((\<lambda>j. \<sigma> (Suc j)) 0) = exec m rest ((\<lambda>j. \<sigma> (Suc j)) k)"
    by (rule Suc.IH) (use Suc.prems in auto)
  with c0 b0' show ?case by simp
qed

section \<open>The shape of the tape\<close>

lemma is_number_not_Null: "is_number v \<Longrightarrow> v \<noteq> Null"
  by (cases v) simp_all

lemma incremented_not_Null: "incremented v \<noteq> Null"
  by (cases v) simp_all

lemma decremented_not_Null: "decremented v \<noteq> Null"
  by (cases v) simp_all

lemma incremented_number: "is_number v \<Longrightarrow> is_number (incremented v)"
  by (cases v) simp_all

lemma decremented_number: "is_number v \<Longrightarrow> is_number (decremented v)"
  by (cases v) simp_all

lemma tape_ok_cells:
  "tape_ok s \<longleftrightarrow>
     (\<exists>cells. memory s = cells @ [Null] \<and> list_all is_number cells \<and>
        pointer s \<le> int (length cells) - 1 \<and> (\<forall>p. props s p \<noteq> Null))"
proof
  assume ok: "tape_ok s"
  then have "memory s = butlast (memory s) @ [Null]"
    by (metis append_butlast_last_id tape_ok_def)
  moreover from ok have "pointer s \<le> int (length (butlast (memory s))) - 1"
    by (auto simp: tape_ok_def)
  ultimately show "\<exists>cells. memory s = cells @ [Null] \<and> list_all is_number cells \<and>
        pointer s \<le> int (length cells) - 1 \<and> (\<forall>p. props s p \<noteq> Null)"
    using ok unfolding tape_ok_def by blast
next
  assume "\<exists>cells. memory s = cells @ [Null] \<and> list_all is_number cells \<and>
        pointer s \<le> int (length cells) - 1 \<and> (\<forall>p. props s p \<noteq> Null)"
  then show "tape_ok s" by (auto simp: tape_ok_def)
qed

lemma js_inc_le: "js_inc x \<le> x + 1"
  by (simp add: js_inc_def)

lemma js_dec_le: "js_dec x \<le> x"
  by (simp add: js_dec_def)

lemma cell_number:
  "list_all is_number cells \<Longrightarrow> 0 \<le> p \<Longrightarrow> nat p < length cells \<Longrightarrow>
   is_number ((cells @ [Null]) ! nat p)"
  by (simp add: list_all_length nth_append)

lemma increment_pointer_grows:
  assumes "memory s = cells @ [Null]" and "\<forall>p. props s p \<noteq> Null"
    and "js_inc (pointer s) = int (length cells)"
  shows "exec_instruction INCREMENT_POINTER s =
     Done (s\<lparr>pointer := js_inc (pointer s), memory := cells @ [Num 0, Null]\<rparr>)"
  using assms
  by (simp add: exec_instruction_def Let_def mem_get_def mem_set_def mem_push_def nth_append)

lemma increment_pointer_stays:
  assumes "memory s = cells @ [Null]" and "list_all is_number cells"
    and "\<forall>p. props s p \<noteq> Null" and "js_inc (pointer s) \<noteq> int (length cells)"
  shows "exec_instruction INCREMENT_POINTER s = Done (s\<lparr>pointer := js_inc (pointer s)\<rparr>)"
proof -
  let ?p = "js_inc (pointer s)"
  have "mem_get (s\<lparr>pointer := ?p\<rparr>) ?p \<noteq> Null"
  proof (cases "?p < 0")
    case True
    with assms(3) show ?thesis by (simp add: mem_get_def)
  next
    case False
    show ?thesis
    proof (cases "nat ?p < length cells")
      case True
      with False cell_number [OF assms(2), of ?p] assms(1) is_number_not_Null
      show ?thesis by (auto simp: mem_get_def)
    next
      case big: False
      with False assms(4) have "\<not> nat ?p < length (memory s)"
        using assms(1) by auto
      with False show ?thesis by (simp add: mem_get_def)
    qed
  qed
  then show ?thesis by (simp add: exec_instruction_def Let_def)
qed

lemma tape_okI:
  "memory s = cells @ [Null] \<Longrightarrow> list_all is_number cells \<Longrightarrow>
   pointer s \<le> int (length cells) - 1 \<Longrightarrow> (\<And>p. props s p \<noteq> Null) \<Longrightarrow> tape_ok s"
  unfolding tape_ok_cells by blast

lemma list_all_update:
  "list_all P xs \<Longrightarrow> P v \<Longrightarrow> list_all P (xs[i := v])"
  using set_update_subset_insert [of xs i v] by (auto simp: list_all_iff)

lemma tape_ok_mem_set:
  assumes "tape_ok s" and "v \<noteq> Null" and "is_number (mem_get s (pointer s)) \<Longrightarrow> is_number v"
  shows "tape_ok (mem_set s (pointer s) v) \<and>
         length (memory (mem_set s (pointer s) v)) = length (memory s)"
proof -
  from assms(1) obtain cells where m: "memory s = cells @ [Null]"
    and nums: "list_all is_number cells" and p: "pointer s \<le> int (length cells) - 1"
    and pr: "\<forall>p. props s p \<noteq> Null"
    unfolding tape_ok_cells by blast
  show ?thesis
  proof (cases "pointer s < 0")
    case True
    then have ms: "mem_set s (pointer s) v = s\<lparr>props := (props s)(pointer s := v)\<rparr>"
      by (simp add: mem_set_def)
    have "tape_ok (s\<lparr>props := (props s)(pointer s := v)\<rparr>)"
    proof (rule tape_okI [of _ cells])
      show "memory (s\<lparr>props := (props s)(pointer s := v)\<rparr>) = cells @ [Null]"
        using m by simp
      show "list_all is_number cells" by (rule nums)
      show "pointer (s\<lparr>props := (props s)(pointer s := v)\<rparr>) \<le> int (length cells) - 1"
        using p by simp
      show "props (s\<lparr>props := (props s)(pointer s := v)\<rparr>) q \<noteq> Null" for q
        using pr assms(2) by simp
    qed
    with ms show ?thesis by simp
  next
    case False
    with p have inside: "nat (pointer s) < length cells" by arith
    with False m have "mem_get s (pointer s) = cells ! nat (pointer s)"
      by (simp add: mem_get_def nth_append)
    with nums inside assms(3) have nv: "is_number v"
      by (simp add: list_all_length)
    from inside m False
    have ms: "mem_set s (pointer s) v = s\<lparr>memory := cells[nat (pointer s) := v] @ [Null]\<rparr>"
      by (simp add: mem_set_def list_update_append)
    have "tape_ok (s\<lparr>memory := cells[nat (pointer s) := v] @ [Null]\<rparr>)"
    proof (rule tape_okI [of _ "cells[nat (pointer s) := v]"])
      show "memory (s\<lparr>memory := cells[nat (pointer s) := v] @ [Null]\<rparr>) =
          cells[nat (pointer s) := v] @ [Null]"
        by simp
      show "list_all is_number (cells[nat (pointer s) := v])"
        by (rule list_all_update [OF nums nv])
      show "pointer (s\<lparr>memory := cells[nat (pointer s) := v] @ [Null]\<rparr>)
          \<le> int (length (cells[nat (pointer s) := v])) - 1"
        using p by simp
      show "props (s\<lparr>memory := cells[nat (pointer s) := v] @ [Null]\<rparr>) q \<noteq> Null" for q
        using pr by simp
    qed
    with ms m show ?thesis by simp
  qed
qed

lemma tape_ok_pointer:
  "tape_ok s \<Longrightarrow> q \<le> pointer s \<Longrightarrow> tape_ok (s\<lparr>pointer := q\<rparr>)"
  by (simp add: tape_ok_def)

lemma tape_ok_warnings: "tape_ok (s\<lparr>warnings := w\<rparr>) = tape_ok s"
  by (simp add: tape_ok_def)

lemma tape_ok_stdout: "tape_ok (s\<lparr>stdout := w\<rparr>) = tape_ok s"
  by (simp add: tape_ok_def)

lemma tape_ok_step:
  assumes "tape_ok s"
  shows "tape_ok (state_of (exec_instruction v s)) \<and>
         (length (memory (state_of (exec_instruction v s))) = length (memory s) \<or>
          v = INCREMENT_POINTER \<and>
          memory (state_of (exec_instruction v s)) = butlast (memory s) @ [Num 0, Null])"
proof -
  from assms obtain cells where m: "memory s = cells @ [Null]"
    and nums: "list_all is_number cells" and p: "pointer s \<le> int (length cells) - 1"
    and pr: "\<forall>p. props s p \<noteq> Null"
    unfolding tape_ok_cells by blast
  consider (incp) "v = INCREMENT_POINTER" | (decp) "v = DECREMENT_POINTER"
    | (incv) "v = INCREMENT_VALUE" | (decv) "v = DECREMENT_VALUE" | (inp) "v = IN"
    | (out) "v = OUT" | (other) "\<not> executable v" "v \<noteq> IN"
    by (auto simp: executable_def)
  then show ?thesis
  proof cases
    case incp
    show ?thesis
    proof (cases "js_inc (pointer s) = int (length cells)")
      case True
      let ?s' = "s\<lparr>pointer := js_inc (pointer s), memory := cells @ [Num 0, Null]\<rparr>"
      have run: "exec_instruction v s = Done ?s'"
        unfolding incp by (rule increment_pointer_grows [OF m pr True])
      have "tape_ok ?s'"
      proof (rule tape_okI [of _ "cells @ [Num 0]"])
        show "memory ?s' = (cells @ [Num 0]) @ [Null]" by simp
        show "list_all is_number (cells @ [Num 0])" using nums by simp
        show "pointer ?s' \<le> int (length (cells @ [Num 0])) - 1" using True by simp
        show "props ?s' q \<noteq> Null" for q using pr by simp
      qed
      with run m incp show ?thesis by simp
    next
      case False
      let ?s' = "s\<lparr>pointer := js_inc (pointer s)\<rparr>"
      have run: "exec_instruction v s = Done ?s'"
        unfolding incp by (rule increment_pointer_stays [OF m nums pr False])
      from False js_inc_le [of "pointer s"] p
      have le: "js_inc (pointer s) \<le> int (length cells) - 1" by arith
      have "tape_ok ?s'"
      proof (rule tape_okI [of _ cells])
        show "memory ?s' = cells @ [Null]" using m by simp
        show "list_all is_number cells" by (rule nums)
        show "pointer ?s' \<le> int (length cells) - 1" using le by simp
        show "props ?s' q \<noteq> Null" for q using pr by simp
      qed
      with run show ?thesis by simp
    qed
  next
    case decp
    then have run: "exec_instruction v s = Done (s\<lparr>pointer := js_dec (pointer s)\<rparr>)"
      by (simp add: exec_instruction_def)
    from tape_ok_pointer [OF assms js_dec_le] run show ?thesis by simp
  next
    case incv
    then have run: "exec_instruction v s =
        Done (mem_set s (pointer s) (incremented (mem_get s (pointer s))))"
      by (simp add: exec_instruction_def)
    from tape_ok_mem_set [OF assms incremented_not_Null incremented_number] run
    show ?thesis by simp
  next
    case decv
    then have run: "exec_instruction v s =
        Done (mem_set s (pointer s) (decremented (mem_get s (pointer s))))"
      by (simp add: exec_instruction_def)
    from tape_ok_mem_set [OF assms decremented_not_Null decremented_number] run
    show ?thesis by simp
  next
    case inp
    then have "exec_instruction v s = Done (s\<lparr>warnings := warnings s + 1\<rparr>)"
      by (simp add: exec_instruction_def)
    with assms show ?thesis by (simp add: tape_ok_warnings)
  next
    case out
    then have "exec_instruction v s =
        Done (s\<lparr>stdout := stdout s @ [fromCharCode (mem_get s (pointer s))]\<rparr>)"
      by (simp add: exec_instruction_def)
    with assms show ?thesis by (simp add: tape_ok_stdout)
  next
    case other
    then have "exec_instruction v s = Failed (UndefinedInstruction v) s"
      by (auto simp: executable_def exec_instruction_def)
    with assms show ?thesis by simp
  qed
qed

lemma tape_ok_exec: "tape_ok s \<Longrightarrow> tape_ok (state_of (exec n t s))"
proof (induction n t s rule: exec.induct)
  case (1 n s)
  then show ?case by simp
next
  case (2 n v rest s)
  from tape_ok_step [OF "2.prems", of v] have ok: "tape_ok (state_of (exec_instruction v s))"
    by simp
  show ?case
  proof (cases "exec_instruction v s")
    case (Done s1)
    with ok "2.IH" [OF Done] show ?thesis by simp
  next
    case (Failed e s1)
    with ok show ?thesis by simp
  next
    case (OutOfFuel s1)
    with ok show ?thesis by simp
  qed
next
  case (3 n body rest s)
  show ?case
  proof (cases "mem_get s (pointer s) \<noteq> Num 0")
    case False
    with "3.IH"(3) "3.prems" show ?thesis by simp
  next
    case True
    show ?thesis
    proof (cases n)
      case 0
      with True "3.prems" show ?thesis by simp
    next
      case (Suc m)
      note ihb = "3.IH"(1) [OF True Suc "3.prems"]
      show ?thesis
      proof (cases "exec m body s")
        case (Done s1)
        with ihb have "tape_ok s1" by simp
        from "3.IH"(2) [OF True Suc Done this] Done True Suc show ?thesis by simp
      next
        case (Failed e s1)
        with ihb True Suc show ?thesis by simp
      next
        case (OutOfFuel s1)
        with ihb True Suc show ?thesis by simp
      qed
    qed
  qed
qed

lemma tape_ok_fresh: "tape_ok fresh"
  by (simp add: tape_ok_def fresh_def)

lemma fresh_run: "exec n [Simple INCREMENT_POINTER, Simple OUT] fresh =
     Done (fresh\<lparr>pointer := 1, memory := [Num 0, Num 0, Null], stdout := [0]\<rparr>)"
  by (simp add: exec_instruction_def fresh_def js_inc_def mem_get_def mem_set_def mem_push_def Let_def)

section \<open>Numbers stay exact\<close>

lemma js_inc_range: "\<bar>x\<bar> \<le> 2 ^ 53 \<Longrightarrow> \<bar>js_inc x\<bar> \<le> 2 ^ 53"
  by (simp add: js_inc_def, arith)

lemma js_dec_range: "\<bar>x\<bar> \<le> 2 ^ 53 \<Longrightarrow> \<bar>js_dec x\<bar> \<le> 2 ^ 53"
  by (simp add: js_dec_def, arith)

lemma mem_get_range: "exact_range s \<Longrightarrow> mem_get s p = Num n \<Longrightarrow> \<bar>n\<bar> \<le> 2 ^ 53"
  by (auto simp: exact_range_def mem_get_def split: if_splits dest: nth_mem)

lemma incremented_range:
  "exact_range s \<Longrightarrow> incremented (mem_get s p) = Num n \<Longrightarrow> \<bar>n\<bar> \<le> 2 ^ 53"
  using mem_get_range [of s p] js_inc_range
  by (cases "mem_get s p") auto

lemma decremented_range:
  "exact_range s \<Longrightarrow> decremented (mem_get s p) = Num n \<Longrightarrow> \<bar>n\<bar> \<le> 2 ^ 53"
  using mem_get_range [of s p] js_dec_range
  by (cases "mem_get s p") auto

lemma exact_range_mem_set:
  assumes "exact_range s" and "\<And>n. v = Num n \<Longrightarrow> \<bar>n\<bar> \<le> 2 ^ 53"
  shows "exact_range (mem_set s p v)"
proof -
  have upd: "Num n \<in> set ((memory s)[i := v]) \<Longrightarrow> \<bar>n\<bar> \<le> 2 ^ 53" for n i
    using set_update_subset_insert [of "memory s" i v] assms
    by (auto simp: exact_range_def)
  show ?thesis
    using assms upd by (auto simp: exact_range_def mem_set_def)
qed

lemma exact_range_mem_push:
  "exact_range s \<Longrightarrow> exact_range (mem_push s Null)"
  by (auto simp: exact_range_def mem_push_def)

lemma exact_range_pointer:
  "exact_range s \<Longrightarrow> \<bar>q\<bar> \<le> 2 ^ 53 \<Longrightarrow> exact_range (s\<lparr>pointer := q\<rparr>)"
  by (simp add: exact_range_def)

lemma exact_range_step:
  assumes "exact_range s"
  shows "exact_range (state_of (exec_instruction v s))"
proof -
  from assms have p: "\<bar>pointer s\<bar> \<le> 2 ^ 53" by (simp add: exact_range_def)
  note s1 = exact_range_pointer [OF assms js_inc_range [OF p]]
  have grow: "exact_range (mem_push (mem_set (s\<lparr>pointer := js_inc (pointer s)\<rparr>) q (Num 0)) Null)"
    for q
    by (rule exact_range_mem_push, rule exact_range_mem_set [OF s1]) simp
  have out: "exact_range (s\<lparr>stdout := w\<rparr>)" for w
    using assms by (simp add: exact_range_def)
  have warn: "exact_range (s\<lparr>warnings := w\<rparr>)" for w
    using assms by (simp add: exact_range_def)
  have iv: "exact_range (mem_set s (pointer s) (incremented (mem_get s (pointer s))))"
    by (rule exact_range_mem_set [OF assms]) (rule incremented_range [OF assms])
  have dv: "exact_range (mem_set s (pointer s) (decremented (mem_get s (pointer s))))"
    by (rule exact_range_mem_set [OF assms]) (rule decremented_range [OF assms])
  show ?thesis
    using assms s1 grow out warn iv dv
      exact_range_pointer [OF assms js_dec_range [OF p]]
    by (simp add: exec_instruction_def Let_def)
qed

lemma exact_range_exec: "exact_range s \<Longrightarrow> exact_range (state_of (exec n t s))"
proof (induction n t s rule: exec.induct)
  case (1 n s)
  then show ?case by simp
next
  case (2 n v rest s)
  from exact_range_step [OF "2.prems", of v] "2.IH" show ?case
    by (cases "exec_instruction v s") simp_all
next
  case (3 n body rest s)
  show ?case
  proof (cases "mem_get s (pointer s) \<noteq> Num 0")
    case False
    with "3.IH"(3) "3.prems" show ?thesis by simp
  next
    case True
    show ?thesis
    proof (cases n)
      case 0
      with True "3.prems" show ?thesis by simp
    next
      case (Suc m)
      note ihb = "3.IH"(1) [OF True Suc "3.prems"]
      show ?thesis
      proof (cases "exec m body s")
        case (Done s1)
        with ihb have "exact_range s1" by simp
        from "3.IH"(2) [OF True Suc Done this] Done True Suc show ?thesis by simp
      next
        case (Failed e s1)
        with ihb True Suc show ?thesis by simp
      next
        case (OutOfFuel s1)
        with ihb True Suc show ?thesis by simp
      qed
    qed
  qed
qed

lemma exact_range_fresh: "exact_range fresh"
  by (simp add: exact_range_def fresh_def)

section \<open>Counting a cell down\<close>

lemma pointer_mem_set: "pointer (mem_set s p v) = pointer s"
  by (simp add: mem_set_def)

lemma mem_get_mem_set: "mem_get (mem_set s p v) p = v"
  by (auto simp: mem_get_def mem_set_def nth_append)

lemma mem_set_again:
  "mem_get s p = Num a \<Longrightarrow> mem_set (mem_set s p v) p w = mem_set s p w"
  by (auto simp: mem_get_def mem_set_def split: if_splits)

lemma decrement_value_step:
  "mem_get s (pointer s) = Num (k + 1) \<Longrightarrow> 0 \<le> k \<Longrightarrow>
   exec m [Simple DECREMENT_VALUE] s = Done (mem_set s (pointer s) (Num k))"
  by (simp add: exec_instruction_def js_dec_def)

lemma loop_iteration:
  "mem_get s (pointer s) \<noteq> Num 0 \<Longrightarrow> exec m body s = Done s1 \<Longrightarrow>
   exec (Suc m) (Loop body # rest) s = exec m (Loop body # rest) s1"
  by simp

lemma countdown_pointer: "pointer (countdown s j) = pointer s"
  by (simp add: countdown_def pointer_mem_set)

lemma countdown_cell:
  "mem_get s (pointer s) = Num 3 \<Longrightarrow>
   mem_get (countdown s j) (pointer (countdown s j)) = Num (3 - int j)"
  unfolding countdown_pointer by (simp add: countdown_def mem_get_mem_set)

lemma countdown_step:
  assumes three: "mem_get s (pointer s) = Num 3" and j: "j < 3"
  shows "mem_get (countdown s j) (pointer (countdown s j)) \<noteq> Num 0 \<and>
         exec m [Simple DECREMENT_VALUE] (countdown s j) = Done (countdown s (Suc j))"
proof -
  let ?c = "countdown s j"
  from countdown_cell [OF three, of j]
  have g: "mem_get ?c (pointer ?c) = Num ((2 - int j) + 1)" by simp
  from j have "0 \<le> 2 - int j" by simp
  from decrement_value_step [OF g this, of m]
  have "exec m [Simple DECREMENT_VALUE] ?c = Done (mem_set ?c (pointer ?c) (Num (2 - int j)))" .
  also have "mem_set ?c (pointer ?c) (Num (2 - int j)) = countdown s (Suc j)"
    unfolding countdown_pointer using three by (simp add: countdown_def mem_set_again)
  finally show ?thesis using g j by simp
qed

lemma countdown_done:
  assumes "mem_get s (pointer s) = Num 3"
  shows "exec (m + 3) [Loop [Simple DECREMENT_VALUE]] s = Done (mem_set s (pointer s) (Num 0))"
proof -
  have "exec (m + 3) (Loop [Simple DECREMENT_VALUE] # []) (countdown s 0) =
      exec m [] (countdown s 3)"
  proof (rule loop_iterations)
    fix j :: nat
    assume "j < 3"
    then show "mem_get (countdown s j) (pointer (countdown s j)) \<noteq> Num 0 \<and>
        exec m [Simple DECREMENT_VALUE] (countdown s j) = Done (countdown s (Suc j))"
      by (rule countdown_step [OF assms])
  next
    show "mem_get (countdown s 3) (pointer (countdown s 3)) = Num 0"
      using countdown_cell [OF assms, of 3] by simp
  qed
  then show ?thesis by (simp add: countdown_def)
qed

lemma countdown_short:
  assumes "mem_get s (pointer s) = Num 3" and "n < 3"
  shows "exec n [Loop [Simple DECREMENT_VALUE]] s = OutOfFuel (countdown s n)"
proof -
  note st = countdown_step [OF assms(1)]
  have stop: "exec 0 [Loop [Simple DECREMENT_VALUE]] (countdown s j) = OutOfFuel (countdown s j)"
    if "j < 3" for j
    using st [OF that] by simp
  have it: "exec (Suc i) [Loop [Simple DECREMENT_VALUE]] (countdown s j) =
      exec i [Loop [Simple DECREMENT_VALUE]] (countdown s (Suc j))" if "j < 3" for i j
    using st [OF that, of i] by (intro loop_iteration) simp_all
  from assms(2) consider "n = 0" | "n = Suc 0" | "n = Suc (Suc 0)" by arith
  then have "exec n [Loop [Simple DECREMENT_VALUE]] (countdown s 0) = OutOfFuel (countdown s n)"
  proof cases
    case 1
    then show ?thesis using stop [of 0] by simp
  next
    case 2
    then show ?thesis using it [of 0 0] stop [of "Suc 0"] by simp
  next
    case 3
    then show ?thesis
      using it [of 0 "Suc 0"] it [of "Suc 0" 0] stop [of "Suc (Suc 0)"] by simp
  qed
  then show ?thesis by (simp add: countdown_def)
qed

section \<open>Rejected programs\<close>

lemma parse_unmatched_end:
  assumes "well_formed t" and "even (length r)"
  shows "parse (emit t @ B # A # r) = Inl UnmatchedLoopEnd"
proof -
  let ?tokens = "emit t @ B # A # r"
  have d: "drop 0 ?tokens = emit t @ (B # A # r)" by simp
  from drop_eq_append [OF d] have d1: "drop (0 + length (emit t)) ?tokens = B # A # r" .
  have "parseRecursively ?tokens [] 0 0 = Inl UnmatchedLoopEnd"
    using parse_balanced [OF assms(1) d, of "[]" 0]
      parse_loop_end_unmatched [OF d1, of "[] @ t"]
    by simp
  moreover have "even (length ?tokens)"
    using even_length_emit [OF assms(1)] assms(2) by simp
  ultimately show ?thesis by (simp add: parse_def)
qed

lemma parse_input_rejected:
  assumes "well_formed t0" and "list_all well_formed opn" and "even (length r)"
  shows "parse (emit t0 @ unclosed opn @ C # A # r) = Inl UnsupportedInput"
proof -
  let ?tokens = "emit t0 @ unclosed opn @ C # A # r"
  have "drop 0 ?tokens = emit t0 @ unclosed opn @ C # A # r" by simp
  from parse_unclosed_input [OF assms(1,2) this]
  have "parseRecursively ?tokens [] 0 0 = Inl UnsupportedInput" .
  moreover have "even (length ?tokens)"
    using even_length_emit [OF assms(1)] even_length_unclosed [OF assms(2)] assms(3) by simp
  ultimately show ?thesis by (simp add: parse_def)
qed

lemma runCode_rejected:
  "parse ms = Inl e \<Longrightarrow> runCode n (encode ms) = Some (Rejected e)"
  by (simp add: runCode_def tokenize_encode)

lemma runCode_executed:
  "parse ms = Inr t \<Longrightarrow> runCode n (encode ms) = Some (Executed (exec n t fresh))"
  by (simp add: runCode_def tokenize_encode)

lemma prefix_parsed_even:
  "parse (take n tokens) = Inr t \<Longrightarrow> n + 1 < length tokens \<Longrightarrow> even n"
  by (auto simp: parse_def min_def split: if_splits)

lemma parse_input_after_prefix:
  assumes ev: "even (length tokens)" and n: "n + 1 < length tokens"
    and c: "tokens ! n = C" and a: "tokens ! (n + 1) = A"
    and pre: "parse (take n tokens) = Inr t'"
  shows "parse tokens = Inl UnsupportedInput"
proof -
  from parse_success_shape [OF pre] obtain t0 opn where
    sh: "take n tokens = emit t0 @ unclosed opn" and w: "well_formed t0"
    and o: "list_all well_formed opn"
    by blast
  from prefix_parsed_even [OF pre n] ev n have "even (length (drop (n + 2) tokens))"
    by simp
  from parse_input_rejected [OF w o this] prefix_then_pair(1) [OF n c a] sh
  show ?thesis by simp
qed

lemma parse_end_after_closed_prefix:
  assumes ev: "even (length tokens)" and n: "n + 1 < length tokens" and en: "even n"
    and b: "tokens ! n = B" and a: "tokens ! (n + 1) = A"
    and pre: "parseRecursively (take n tokens) [] 0 0 = Inr (t', c', 0)"
  shows "parse tokens = Inl UnmatchedLoopEnd"
proof -
  from n have ln: "length (take n tokens) = n" by simp
  from parse_run_shape [OF _ pre] en ln obtain t0 where
    sh: "take n tokens = emit t0" and w: "well_formed t0"
    by auto
  from ev en n have "even (length (drop (n + 2) tokens))" by simp
  from parse_unmatched_end [OF w this] prefix_then_pair(1) [OF n b a] sh
  show ?thesis by simp
qed

lemma parse_end_after_open_prefix:
  assumes n: "n + 1 < length tokens" and en: "even n"
    and b: "tokens ! n = B" and a: "tokens ! (n + 1) = A"
    and pre: "parseRecursively (take n tokens) [] 0 0 = Inr (t', c', Suc d)"
  shows "\<exists>c''. parseRecursively (take (n + 2) tokens) [] 0 0 = Inr (t', c'', d)"
proof -
  from n have ln: "length (take n tokens) = n" by simp
  from parse_run_shape [OF _ pre] en ln obtain t0 opn where
    sh: "take n tokens = emit t0 @ unclosed opn" and t': "t' = t0 @ nest opn"
    and w: "well_formed t0" and o: "list_all well_formed opn" and d: "Suc d = length opn"
    by auto
  from d have "opn \<noteq> []" by auto
  from close_innermost [OF w o this] obtain t1 opn1 where
    e: "emit t0 @ unclosed opn @ [B, A] = emit t1 @ unclosed opn1"
    and tt: "t0 @ nest opn = t1 @ nest opn1" and w1: "well_formed t1"
    and o1: "list_all well_formed opn1" and l: "Suc (length opn1) = length opn"
    by blast
  from prefix_then_pair(2) [OF n b a] sh e
  have "drop 0 (take (n + 2) tokens) = emit t1 @ unclosed opn1" by simp
  from parse_unclosed [OF w1 o1 this, of "[]" 0] tt t' d l show ?thesis by auto
qed

lemma encode_concat: "encode ms = concat (map (\<lambda>m. keyword @ [glyph m]) ms)"
  by (induction ms) simp_all

lemma token_valid: "keyword @ [glyph m] \<in> set validTokens"
  by (cases m) (simp_all add: validTokens_def)

section \<open>Claims about the parser\<close>

text \<open>
  Claim C3, as stated: every marker sequence that ends while a loop is still open
  is parsed without an error. After the opening pair \<open>A, B\<close> the parser is inside
  a loop (depth 1); the sequences below go on from there, never close the loop,
  and are rejected all the same: for the \<open>Input\<close> pair, for the pair \<open>(B,B)\<close>, and
  for an odd number of markers.
\<close>

theorem unclosed_loop_parses_counterexample:
  "parseRecursively [A, B] [] 0 0 = Inr ([Loop []], 3, 1) \<and>
   parse [A, B, C, A] = Inl UnsupportedInput \<and>
   parse [A, B, B, B] = Inl InvalidInstructionPair \<and>
   parse [A, B, C] = Inl OddTokenCount"
  by (simp add: parse_def parseRecursively.simps read_instruction_def)

text \<open>
  Claim C3, amended: a marker sequence that ends while a loop is still open, and
  in which the parser meets no other error on the way, is parsed without an
  error, and the open loop becomes a \<open>Loop\<close> node whose body is what was parsed
  up to the end of the input; no error is raised for the missing closing pairs.
  First part: a closed part \<open>t0\<close> of executable instructions and closed loops,
  then the opening pair of a loop that is never closed, the closed instructions
  \<open>body\<close> after it, and possibly further loops opened inside it and left open as
  well (\<open>inner\<close>), is parsed to \<open>t0\<close> followed by one loop node. Second part:
  these are all the cases. Whenever the parser comes to the end of a sequence of
  even length with the loop depth \<open>d\<close> still positive, \<open>parse\<close> succeeds, the
  sequence has the form of the first part with \<open>d\<close> loops left open, and the
  tree ends in the loop node.
\<close>

theorem unclosed_loop_parses:
  "(well_formed t0 \<and> well_formed body \<and> list_all well_formed inner \<longrightarrow>
      parse (emit t0 @ unclosed (body # inner)) = Inr (t0 @ [Loop (body @ nest inner)])) \<and>
   (even (length tokens) \<and> parseRecursively tokens [] 0 0 = Inr (t, c, d) \<and> 0 < d \<longrightarrow>
      parse tokens = Inr t \<and>
      (\<exists>t0 body inner. tokens = emit t0 @ unclosed (body # inner) \<and>
          t = t0 @ [Loop (body @ nest inner)] \<and> well_formed t0 \<and> well_formed body \<and>
          list_all well_formed inner \<and> d = Suc (length inner)))"
proof (intro conjI impI)
  assume h: "well_formed t0 \<and> well_formed body \<and> list_all well_formed inner"
  let ?tokens = "emit t0 @ unclosed (body # inner)"
  from h have w: "well_formed t0" and opn: "list_all well_formed (body # inner)" by simp_all
  have "drop 0 ?tokens = emit t0 @ unclosed (body # inner)" by simp
  from parse_unclosed [OF w opn this, of "[]" 0]
  obtain c where "parseRecursively ?tokens [] 0 0 =
      Inr (t0 @ nest (body # inner), c, length (body # inner))"
    by auto
  moreover have "even (length ?tokens)"
    using even_length_emit [OF w] even_length_unclosed [OF opn] by simp
  ultimately show "parse ?tokens = Inr (t0 @ [Loop (body @ nest inner)])"
    by (simp add: parse_def)
next
  assume h: "even (length tokens) \<and> parseRecursively tokens [] 0 0 = Inr (t, c, d) \<and> 0 < d"
  then show "parse tokens = Inr t" by (simp add: parse_def)
  from h parse_run_shape [of tokens t c d] obtain t0 opn where
    sh: "tokens = emit t0 @ unclosed opn" "t = t0 @ nest opn" "well_formed t0"
      "list_all well_formed opn" "d = length opn"
    by blast
  with h obtain body inner where "opn = body # inner" by (cases opn) auto
  with sh show "\<exists>t0 body inner. tokens = emit t0 @ unclosed (body # inner) \<and>
          t = t0 @ [Loop (body @ nest inner)] \<and> well_formed t0 \<and> well_formed body \<and>
          list_all well_formed inner \<and> d = Suc (length inner)"
    by (intro exI [of _ t0] exI [of _ body] exI [of _ inner]) simp
qed

theorem unclosed_loop_parses_witness:
  "well_formed [Simple INCREMENT_VALUE] \<and> well_formed [Simple DECREMENT_VALUE] \<and>
   list_all well_formed [[Simple OUT]] \<and>
   parse [C, C, A, B, A, A, A, B, A, C] =
     Inr [Simple INCREMENT_VALUE, Loop [Simple DECREMENT_VALUE, Loop [Simple OUT]]] \<and>
   even (length [C, C, A, B, A, A]) \<and>
   parseRecursively [C, C, A, B, A, A] [] 0 0 =
     Inr ([Simple INCREMENT_VALUE, Loop [Simple DECREMENT_VALUE]], 7, 1) \<and>
   parse [C, C, A, B, A, A] = Inr [Simple INCREMENT_VALUE, Loop [Simple DECREMENT_VALUE]]"
proof -
  have run: "parseRecursively [C, C, A, B, A, A] [] 0 0 =
     Inr ([Simple INCREMENT_VALUE, Loop [Simple DECREMENT_VALUE]], 7, 1)"
    by (simp add: parseRecursively.simps read_instruction_def)
  from unclosed_loop_parses
    [of "[Simple INCREMENT_VALUE]" "[Simple DECREMENT_VALUE]" "[[Simple OUT]]"
        "[C, C, A, B, A, A]" "[Simple INCREMENT_VALUE, Loop [Simple DECREMENT_VALUE]]" 7 1] run
  show ?thesis by (simp add: executable_def)
qed

text \<open>
  Claim C9, as stated: the concatenation of \<open>N\<close> valid tokens, \<open>N\<close> even and the
  loops matched, yields exactly \<open>N\<close> marker-pair instructions. The two tokens that
  spell \<open>IncrementValue\<close> are lexed to two markers and parsed to one instruction,
  not two. The two tokens that spell \<open>Input\<close>, and the two that spell the pair
  \<open>(B,B)\<close>, are lexed to two markers as well and open no loop, but parsing them
  yields no instruction at all: they are rejected.
\<close>

theorem roundtrip_count_counterexample:
  "tokenize [0x3046, 0x3093, 0x3061, 0x3002, 0x3046, 0x3093, 0x3061, 0x3002] = Some (Inr [C, C]) \<and>
   parse [C, C] = Inr [Simple INCREMENT_VALUE] \<and>
   length [Simple INCREMENT_VALUE] = 1 \<and> pair_count [Simple INCREMENT_VALUE] = 1 \<and>
   tokenize [0x3046, 0x3093, 0x3061, 0x3002, 0x3046, 0x3093, 0x3061, 0xFF01] = Some (Inr [C, A]) \<and>
   parse [C, A] = Inl UnsupportedInput \<and>
   tokenize [0x3046, 0x3093, 0x3061, 0xFF1F, 0x3046, 0x3093, 0x3061, 0xFF1F] = Some (Inr [B, B]) \<and>
   parse [B, B] = Inl InvalidInstructionPair"
  by (simp add: tokenize_def tokenize_loop_end tokenize_loop_token lexer_defs
      parse_def parseRecursively.simps read_instruction_def)

text \<open>
  Claim C9, amended. The concatenation of \<open>N\<close> valid tokens, for any \<open>N\<close> and
  any choice of the tokens, is lexed to exactly its \<open>N\<close> markers (\<open>encode ms\<close> is
  that concatenation, each piece a member of \<open>validTokens\<close>). When the markers
  spell a tree of executable instructions and closed loops, they are parsed to that
  tree, and the tree holds exactly \<open>N / 2\<close> marker pairs, a loop node standing for
  its opening and its closing pair. These are the sequences of even length that
  the parser reads to the end with every loop closed: such a sequence spells the
  tree it is parsed to, so \<open>N\<close> is even, the loops are matched and neither
  \<open>Input\<close> nor the pair \<open>(B,B)\<close> occurs.
\<close>

theorem roundtrip_count:
  "encode ms = concat (map (\<lambda>m. keyword @ [glyph m]) ms) \<and>
   keyword @ [glyph m] \<in> set validTokens \<and>
   tokenize (encode ms) = Some (Inr ms) \<and>
   (well_formed t \<longrightarrow>
      tokenize (encode (emit t)) = Some (Inr (emit t)) \<and>
      length (emit t) = 2 * pair_count t \<and>
      parse (emit t) = Inr t) \<and>
   (even (length ms) \<and> parseRecursively ms [] 0 0 = Inr (t', c, 0) \<longrightarrow>
      ms = emit t' \<and> well_formed t' \<and> length ms = 2 * pair_count t')"
proof (intro conjI impI)
  show "encode ms = concat (map (\<lambda>m. keyword @ [glyph m]) ms)" by (rule encode_concat)
  show "keyword @ [glyph m] \<in> set validTokens" by (rule token_valid)
  show "tokenize (encode ms) = Some (Inr ms)" by (rule tokenize_encode)
next
  assume w: "well_formed t"
  show "tokenize (encode (emit t)) = Some (Inr (emit t))" by (rule tokenize_encode)
  show "length (emit t) = 2 * pair_count t" by (rule length_emit [OF w])
  show "parse (emit t) = Inr t" by (rule parse_emit [OF w])
next
  assume h: "even (length ms) \<and> parseRecursively ms [] 0 0 = Inr (t', c, 0)"
  from parse_run_shape [of ms t' c 0] h
  have sh: "ms = emit t'" and w: "well_formed t'" by auto
  show "ms = emit t'" by (rule sh)
  show "well_formed t'" by (rule w)
  from length_emit [OF w] sh show "length ms = 2 * pair_count t'" by simp
qed

theorem roundtrip_count_witness:
  "well_formed [Simple INCREMENT_VALUE, Loop [Simple DECREMENT_VALUE]] \<and>
   tokenize (encode [C, C, A, B, A, A, B, A]) = Some (Inr [C, C, A, B, A, A, B, A]) \<and>
   length [C, C, A, B, A, A, B, A] =
     2 * pair_count [Simple INCREMENT_VALUE, Loop [Simple DECREMENT_VALUE]] \<and>
   parse [C, C, A, B, A, A, B, A] = Inr [Simple INCREMENT_VALUE, Loop [Simple DECREMENT_VALUE]] \<and>
   even (length [A, B, A, C, B, A]) \<and>
   parseRecursively [A, B, A, C, B, A] [] 0 0 = Inr ([Loop [Simple OUT]], 6, 0) \<and>
   [A, B, A, C, B, A] = emit [Loop [Simple OUT]] \<and>
   tokenize (encode [C]) = Some (Inr [C])"
proof -
  have run: "parseRecursively [A, B, A, C, B, A] [] 0 0 = Inr ([Loop [Simple OUT]], 6, 0)"
    by (simp add: parseRecursively.simps read_instruction_def)
  from roundtrip_count
    [of "[C]" A "[Simple INCREMENT_VALUE, Loop [Simple DECREMENT_VALUE]]"]
    roundtrip_count
    [of "[A, B, A, C, B, A]" A "[Simple INCREMENT_VALUE, Loop [Simple DECREMENT_VALUE]]"
        "[Loop [Simple OUT]]" 6] run
  show ?thesis by (simp add: executable_def)
qed

text \<open>
  Claim C4. Whenever \<open>parse\<close> succeeds, every \<open>Simple\<close> node of the tree it
  returns, at any depth, carries one of the five executable pairs; and a run of the
  executor on that tree, from any state and with any fuel, never ends in a failure,
  so the \<open>default\<close> branch that throws \<open>UndefinedInstruction\<close> is not reached.
\<close>

theorem parsed_tree_never_undefined:
  assumes "parse tokens = Inr t"
  shows "well_formed t \<and> (\<forall>n s e s'. exec n t s \<noteq> Failed e s')"
  using parse_well_formed [OF assms] exec_well_formed by blast

theorem parsed_tree_never_undefined_witness:
  "parse [C, C, A, C] = Inr [Simple INCREMENT_VALUE, Simple OUT] \<and>
   well_formed [Simple INCREMENT_VALUE, Simple OUT] \<and>
   (\<forall>n s e s'. exec n [Simple INCREMENT_VALUE, Simple OUT] s \<noteq> Failed e s')"
proof -
  have p: "parse [C, C, A, C] = Inr [Simple INCREMENT_VALUE, Simple OUT]"
    by (simp add: parse_def parseRecursively.simps read_instruction_def)
  from parsed_tree_never_undefined [OF p] p show ?thesis by simp
qed

text \<open>
  Claim C5. When the parser reads the pair \<open>(C,A)\<close> as an instruction, \<open>parse\<close>
  fails with \<open>UnsupportedInput\<close>, and nothing is executed. The parser reads the
  pair when what precedes it was read without error. First part: the pair after
  a closed part \<open>t0\<close> and any number of loops opened after it and still open
  (\<open>opn\<close>, possibly none). Second part, the same without naming the form of
  what precedes: if the pair stands at the even position \<open>k\<close> and the \<open>k\<close>
  markers before it are parsed without error, the whole sequence is rejected.
  Third part: a tree that \<open>parse\<close> returns never makes the executor take its
  \<open>IN\<close> branch, since the count of warnings stays what it was in every run. Last
  part: that branch, taken alone, only warns and leaves pointer, memory and output
  as they are.
\<close>

theorem input_rejected_by_parser:
  "(well_formed t0 \<and> list_all well_formed opn \<and> even (length r) \<longrightarrow>
      parse (emit t0 @ unclosed opn @ C # A # r) = Inl UnsupportedInput \<and>
      runCode n (encode (emit t0 @ unclosed opn @ C # A # r)) = Some (Rejected UnsupportedInput)) \<and>
   (even (length toks) \<and> k + 1 < length toks \<and> toks ! k = C \<and> toks ! (k + 1) = A \<and>
    parse (take k toks) = Inr t' \<longrightarrow>
      parse toks = Inl UnsupportedInput) \<and>
   (parse tokens = Inr t \<longrightarrow> (\<forall>n s. warnings (state_of (exec n t s)) = warnings s)) \<and>
   exec_instruction IN s = Done (s\<lparr>warnings := warnings s + 1\<rparr>)"
proof (intro conjI impI)
  assume h: "well_formed t0 \<and> list_all well_formed opn \<and> even (length r)"
  then show p: "parse (emit t0 @ unclosed opn @ C # A # r) = Inl UnsupportedInput"
    by (simp add: parse_input_rejected)
  then show "runCode n (encode (emit t0 @ unclosed opn @ C # A # r)) = Some (Rejected UnsupportedInput)"
    by (rule runCode_rejected)
next
  assume "even (length toks) \<and> k + 1 < length toks \<and> toks ! k = C \<and> toks ! (k + 1) = A \<and>
    parse (take k toks) = Inr t'"
  then show "parse toks = Inl UnsupportedInput"
    using parse_input_after_prefix [of toks k t'] by blast
next
  assume "parse tokens = Inr t"
  from parse_well_formed [OF this] exec_well_formed
  show "\<forall>n s. warnings (state_of (exec n t s)) = warnings s" by blast
next
  show "exec_instruction IN s = Done (s\<lparr>warnings := warnings s + 1\<rparr>)"
    by (simp add: exec_instruction_def)
qed

theorem input_rejected_by_parser_witness:
  "well_formed [Simple INCREMENT_VALUE] \<and> list_all well_formed [[Simple OUT]] \<and>
   even (length [C, C]) \<and>
   parse [C, C, A, B, A, C, C, A, C, C] = Inl UnsupportedInput \<and>
   even (length [A, B, C, A]) \<and> parse (take 2 [A, B, C, A]) = Inr [Loop []] \<and>
   parse [A, B, C, A] = Inl UnsupportedInput \<and>
   parse [C, C, A, C] = Inr [Simple INCREMENT_VALUE, Simple OUT] \<and>
   warnings (state_of (exec 0 [Simple INCREMENT_VALUE, Simple OUT] fresh)) = 0"
proof -
  have p: "parse [C, C, A, C] = Inr [Simple INCREMENT_VALUE, Simple OUT]"
    by (simp add: parse_def parseRecursively.simps read_instruction_def)
  have q: "parse (take 2 [A, B, C, A]) = Inr [Loop []]"
    by (simp add: parse_def parseRecursively.simps read_instruction_def)
  from input_rejected_by_parser
    [of "[Simple INCREMENT_VALUE]" "[[Simple OUT]]" "[C, C]" 0 "[A, B, C, A]" 2 "[Loop []]"
        "[C, C, A, C]" "[Simple INCREMENT_VALUE, Simple OUT]" fresh] p q
  show ?thesis by (simp add: executable_def fresh_def)
qed

text \<open>
  Claim C7. A \<open>LoopEnd\<close> pair read while no loop is open makes \<open>parse\<close> fail
  with \<open>UnmatchedLoopEnd\<close>; \<open>runCode\<close> then stops before the executor exists, so
  nothing is written. This is the first part, for the pair after a closed part
  \<open>t\<close>, and the second part, for the pair at an even position \<open>k\<close> when the
  parser has read the \<open>k\<close> markers before it without error and with depth 0 at
  their end. Read while a loop is open, the pair ends the current block. Third
  part: with \<open>loopDepth\<close> positive, \<open>parseRecursively\<close> returns the instructions it
  has collected, unchanged, with the depth one less and the cursor on the second
  marker of the pair, which the caller's \<open>current++\<close> steps over. Fourth part:
  if the markers before the pair are parsed to the tree \<open>t''\<close> with depth \<open>d + 1\<close>
  at their end, then the markers up to and including the pair are parsed to the
  same tree \<open>t''\<close> with depth \<open>d\<close>: the pair adds no node.
\<close>

theorem loop_end_handling:
  "(well_formed t \<and> even (length r) \<longrightarrow>
      parse (emit t @ B # A # r) = Inl UnmatchedLoopEnd \<and>
      runCode n (encode (emit t @ B # A # r)) = Some (Rejected UnmatchedLoopEnd) \<and>
      map_option written (runCode n (encode (emit t @ B # A # r))) = Some []) \<and>
   (even (length toks) \<and> even k \<and> k + 1 < length toks \<and> toks ! k = B \<and> toks ! (k + 1) = A \<and>
    parseRecursively (take k toks) [] 0 0 = Inr (t', c', 0) \<longrightarrow>
      parse toks = Inl UnmatchedLoopEnd) \<and>
   (drop current tokens = B # A # r' \<longrightarrow>
      parseRecursively tokens instructions current (Suc loopDepth) =
        Inr (instructions, current + 1, loopDepth)) \<and>
   (even j \<and> j + 1 < length ts \<and> ts ! j = B \<and> ts ! (j + 1) = A \<and>
    parseRecursively (take j ts) [] 0 0 = Inr (t'', c'', Suc d) \<longrightarrow>
      (\<exists>c. parseRecursively (take (j + 2) ts) [] 0 0 = Inr (t'', c, d)))"
proof (intro conjI impI)
  assume h: "well_formed t \<and> even (length r)"
  then show p: "parse (emit t @ B # A # r) = Inl UnmatchedLoopEnd"
    by (simp add: parse_unmatched_end)
  from runCode_rejected [OF p]
  show rc: "runCode n (encode (emit t @ B # A # r)) = Some (Rejected UnmatchedLoopEnd)" .
  then show "map_option written (runCode n (encode (emit t @ B # A # r))) = Some []"
    by simp
next
  assume "even (length toks) \<and> even k \<and> k + 1 < length toks \<and> toks ! k = B \<and>
    toks ! (k + 1) = A \<and> parseRecursively (take k toks) [] 0 0 = Inr (t', c', 0)"
  then show "parse toks = Inl UnmatchedLoopEnd"
    using parse_end_after_closed_prefix [of toks k t' c'] by blast
next
  assume "drop current tokens = B # A # r'"
  then show "parseRecursively tokens instructions current (Suc loopDepth) =
        Inr (instructions, current + 1, loopDepth)"
    by (rule parse_loop_end_open)
next
  assume "even j \<and> j + 1 < length ts \<and> ts ! j = B \<and> ts ! (j + 1) = A \<and>
    parseRecursively (take j ts) [] 0 0 = Inr (t'', c'', Suc d)"
  then show "\<exists>c. parseRecursively (take (j + 2) ts) [] 0 0 = Inr (t'', c, d)"
    using parse_end_after_open_prefix [of j ts t'' c'' d] by blast
qed

theorem loop_end_handling_witness:
  "well_formed [Simple INCREMENT_VALUE] \<and> even (length [C, C]) \<and>
   parse [C, C, B, A, C, C] = Inl UnmatchedLoopEnd \<and>
   runCode 0 (encode [C, C, B, A, C, C]) = Some (Rejected UnmatchedLoopEnd) \<and>
   parseRecursively (take 2 [C, C, B, A]) [] 0 0 = Inr ([Simple INCREMENT_VALUE], 2, 0) \<and>
   parse [C, C, B, A] = Inl UnmatchedLoopEnd \<and>
   drop 2 [A, B, B, A] = [B, A] \<and>
   parseRecursively [A, B, B, A] [] 2 (Suc 0) = Inr ([], 3, 0) \<and>
   parseRecursively (take 2 [A, B, B, A]) [] 0 0 = Inr ([Loop []], 3, Suc 0) \<and>
   (\<exists>c. parseRecursively (take (2 + 2) [A, B, B, A]) [] 0 0 = Inr ([Loop []], c, 0))"
proof -
  have p: "parseRecursively (take 2 [C, C, B, A]) [] 0 0 = Inr ([Simple INCREMENT_VALUE], 2, 0)"
    by (simp add: parseRecursively.simps read_instruction_def)
  have q: "parseRecursively (take 2 [A, B, B, A]) [] 0 0 = Inr ([Loop []], 3, Suc 0)"
    by (simp add: parseRecursively.simps read_instruction_def)
  from loop_end_handling
    [of "[Simple INCREMENT_VALUE]" "[C, C]" 0 "[C, C, B, A]" 2 "[Simple INCREMENT_VALUE]" 2
        2 "[A, B, B, A]" "[]" "[]" 0 2 "[A, B, B, A]" "[Loop []]" 3 0] p q
  show ?thesis by (simp add: executable_def)
qed

section \<open>Claims about the executor\<close>

lemma fresh_run_source:
  "runCode n (encode [C, B, A, C]) =
     Some (Executed (Done (fresh\<lparr>pointer := 1, memory := [Num 0, Num 0, Null], stdout := [0]\<rparr>)))"
proof -
  have "parse (emit [Simple INCREMENT_POINTER, Simple OUT]) = Inr [Simple INCREMENT_POINTER, Simple OUT]"
    by (rule parse_emit) (simp add: executable_def)
  then have "parse [C, B, A, C] = Inr [Simple INCREMENT_POINTER, Simple OUT]" by simp
  from runCode_executed [OF this, of n] show ?thesis by (simp only: fresh_run)
qed

lemma increment_pointer_effect:
  assumes ok: "tape_ok s" and small: "pointer s < 2 ^ 53"
  shows "exec_instruction INCREMENT_POINTER s =
     Done (s\<lparr>pointer := pointer s + 1,
              memory := (if pointer s + 1 = int (length (memory s)) - 1
                         then butlast (memory s) @ [Num 0, Null] else memory s)\<rparr>)"
proof -
  from ok obtain cells where m: "memory s = cells @ [Null]"
    and nums: "list_all is_number cells" and p: "pointer s \<le> int (length cells) - 1"
    and pr: "\<forall>p. props s p \<noteq> Null"
    unfolding tape_ok_cells by blast
  from small have inc: "js_inc (pointer s) = pointer s + 1" by (simp add: js_inc_def)
  show ?thesis
  proof (cases "js_inc (pointer s) = int (length cells)")
    case True
    from increment_pointer_grows [OF m pr True] True m inc show ?thesis by simp
  next
    case False
    from increment_pointer_stays [OF m nums pr False] False m inc show ?thesis by simp
  qed
qed

text \<open>
  Claim C1. A loop node runs its body in full while the cell at the pointer is not
  zero, and tests again in the state the body has left, at the pointer as it is
  then. First part: if the body, started in \<open>\<sigma> j\<close>, ends in \<open>\<sigma> (j + 1)\<close> for each
  \<open>j < k\<close>, the cell at the pointer of each of these \<open>\<sigma> j\<close> is not zero and the
  cell at the pointer of \<open>\<sigma> k\<close> is zero, then the loop started in \<open>\<sigma> 0\<close> runs the
  body exactly these \<open>k\<close> times and the program goes on after the loop in \<open>\<sigma> k\<close>
  (each execution of the body takes one unit of fuel). Second part: the loop
  around \<open>DecrementValue\<close>, started with 3 in the cell at the pointer, ends with 0
  in that cell when it is given fuel for three executions of the body or more, and
  does not end with fuel for fewer: after \<open>n < 3\<close> executions the cell holds
  \<open>3 - n\<close>, not zero, and a further execution is due. The instance after the
  theorem also runs the loop around \<open>IncrementPointer\<close> from a cell holding 1: the
  body moves the pointer to a new cell, the test there finds zero, and the loop
  ends after one execution although the cell where it started still holds 1.
\<close>

theorem loop_runs_while_cell_nonzero:
  "((\<forall>j<k. mem_get (\<sigma> j) (pointer (\<sigma> j)) \<noteq> Num 0 \<and> exec m body (\<sigma> j) = Done (\<sigma> (Suc j))) \<and>
    mem_get (\<sigma> k) (pointer (\<sigma> k)) = Num 0 \<longrightarrow>
      exec (m + k) (Loop body # rest) (\<sigma> 0) = exec m rest (\<sigma> k)) \<and>
   (mem_get s (pointer s) = Num 3 \<longrightarrow>
      (\<forall>n. exec n [Loop [Simple DECREMENT_VALUE]] s =
         (if n < 3 then OutOfFuel (countdown s n)
          else Done (mem_set s (pointer s) (Num 0)))) \<and>
      (\<forall>j<3. mem_get (countdown s j) (pointer (countdown s j)) = Num (3 - int j)) \<and>
      mem_get (mem_set s (pointer s) (Num 0)) (pointer (mem_set s (pointer s) (Num 0))) = Num 0)"
proof (intro conjI impI allI)
  assume h: "(\<forall>j<k. mem_get (\<sigma> j) (pointer (\<sigma> j)) \<noteq> Num 0 \<and> exec m body (\<sigma> j) = Done (\<sigma> (Suc j))) \<and>
    mem_get (\<sigma> k) (pointer (\<sigma> k)) = Num 0"
  show "exec (m + k) (Loop body # rest) (\<sigma> 0) = exec m rest (\<sigma> k)"
    by (rule loop_iterations) (use h in auto)
next
  fix n
  assume three: "mem_get s (pointer s) = Num 3"
  show "exec n [Loop [Simple DECREMENT_VALUE]] s =
         (if n < 3 then OutOfFuel (countdown s n)
          else Done (mem_set s (pointer s) (Num 0)))"
  proof (cases "n < 3")
    case True
    with countdown_short [OF three True] show ?thesis by simp
  next
    case False
    then have "n = (n - 3) + 3" by simp
    with countdown_done [OF three, of "n - 3"] False show ?thesis by simp
  qed
next
  fix j :: nat
  assume three: "mem_get s (pointer s) = Num 3"
  show "mem_get (countdown s j) (pointer (countdown s j)) = Num (3 - int j)"
    by (rule countdown_cell [OF three])
next
  show "mem_get (mem_set s (pointer s) (Num 0)) (pointer (mem_set s (pointer s) (Num 0))) = Num 0"
    by (simp add: pointer_mem_set mem_get_mem_set)
qed

theorem loop_runs_while_cell_nonzero_witness:
  "exec 0 [Simple DECREMENT_VALUE] (fresh\<lparr>memory := [Num 3, Null]\<rparr>) =
     Done (fresh\<lparr>memory := [Num 2, Null]\<rparr>) \<and>
   exec 0 [Simple DECREMENT_VALUE] (fresh\<lparr>memory := [Num 2, Null]\<rparr>) =
     Done (fresh\<lparr>memory := [Num 1, Null]\<rparr>) \<and>
   exec 0 [Simple DECREMENT_VALUE] (fresh\<lparr>memory := [Num 1, Null]\<rparr>) =
     Done (fresh\<lparr>memory := [Num 0, Null]\<rparr>) \<and>
   mem_get (fresh\<lparr>memory := [Num 3, Null]\<rparr>) (pointer (fresh\<lparr>memory := [Num 3, Null]\<rparr>)) = Num 3 \<and>
   mem_get (fresh\<lparr>memory := [Num 0, Null]\<rparr>) (pointer (fresh\<lparr>memory := [Num 0, Null]\<rparr>)) = Num 0 \<and>
   exec 2 [Loop [Simple DECREMENT_VALUE]] (fresh\<lparr>memory := [Num 3, Null]\<rparr>) =
     OutOfFuel (fresh\<lparr>memory := [Num 1, Null]\<rparr>) \<and>
   exec 3 [Loop [Simple DECREMENT_VALUE]] (fresh\<lparr>memory := [Num 3, Null]\<rparr>) =
     Done (fresh\<lparr>memory := [Num 0, Null]\<rparr>) \<and>
   exec 0 [Simple INCREMENT_POINTER] (fresh\<lparr>memory := [Num 1, Null]\<rparr>) =
     Done (fresh\<lparr>pointer := 1, memory := [Num 1, Num 0, Null]\<rparr>) \<and>
   exec 1 [Loop [Simple INCREMENT_POINTER]] (fresh\<lparr>memory := [Num 1, Null]\<rparr>) =
     Done (fresh\<lparr>pointer := 1, memory := [Num 1, Num 0, Null]\<rparr>)"
proof -
  let ?\<sigma> = "\<lambda>j::nat. fresh\<lparr>memory := [Num (3 - int j), Null]\<rparr>"
  have steps: "\<forall>j<3. mem_get (?\<sigma> j) (pointer (?\<sigma> j)) \<noteq> Num 0 \<and>
      exec 0 [Simple DECREMENT_VALUE] (?\<sigma> j) = Done (?\<sigma> (Suc j))"
    by (simp add: mem_get_def mem_set_def fresh_def exec_instruction_def js_dec_def)
  have last: "mem_get (?\<sigma> 3) (pointer (?\<sigma> 3)) = Num 0"
    by (simp add: mem_get_def fresh_def)
  have three: "mem_get (?\<sigma> 0) (pointer (?\<sigma> 0)) = Num 3"
    by (simp add: mem_get_def fresh_def)
  note inst = loop_runs_while_cell_nonzero
    [of 3 ?\<sigma> 0 "[Simple DECREMENT_VALUE]" "[]" "?\<sigma> 0"]
  from inst steps last
  have run: "exec (0 + 3) [Loop [Simple DECREMENT_VALUE]] (?\<sigma> 0) = exec 0 [] (?\<sigma> 3)"
    by blast
  from inst three
  have all: "\<forall>n. exec n [Loop [Simple DECREMENT_VALUE]] (?\<sigma> 0) =
         (if n < 3 then OutOfFuel (countdown (?\<sigma> 0) n)
          else Done (mem_set (?\<sigma> 0) (pointer (?\<sigma> 0)) (Num 0)))"
    by blast
  from all [rule_format, of 2]
  have short: "exec 2 [Loop [Simple DECREMENT_VALUE]] (?\<sigma> 0) = OutOfFuel (?\<sigma> 2)"
    by (simp add: countdown_def mem_set_def fresh_def)
  let ?\<tau> = "\<lambda>j::nat. if j = 0 then fresh\<lparr>memory := [Num 1, Null]\<rparr>
    else fresh\<lparr>pointer := 1, memory := [Num 1, Num 0, Null]\<rparr>"
  have move: "exec 0 [Simple INCREMENT_POINTER] (?\<tau> 0) = Done (?\<tau> (Suc 0))"
    by (simp add: exec_instruction_def fresh_def js_inc_def mem_get_def mem_set_def
        mem_push_def Let_def)
  then have moves: "\<forall>j<1. mem_get (?\<tau> j) (pointer (?\<tau> j)) \<noteq> Num 0 \<and>
      exec 0 [Simple INCREMENT_POINTER] (?\<tau> j) = Done (?\<tau> (Suc j))"
    by (simp add: mem_get_def fresh_def)
  have moved: "mem_get (?\<tau> 1) (pointer (?\<tau> 1)) = Num 0"
    by (simp add: mem_get_def fresh_def)
  from loop_runs_while_cell_nonzero
    [of 1 ?\<tau> 0 "[Simple INCREMENT_POINTER]" "[]" "?\<sigma> 0"] moves moved
  have run2: "exec (0 + 1) [Loop [Simple INCREMENT_POINTER]] (?\<tau> 0) = exec 0 [] (?\<tau> 1)"
    by blast
  from steps [rule_format, of 0] steps [rule_format, of 1] steps [rule_format, of 2]
    three last run short move run2
  show ?thesis by simp
qed

text \<open>
  Claim C8. In a state of the shape \<open>tape_ok\<close>, with the pointer in the range
  where JavaScript numbers are exact, \<open>IncrementPointer\<close> adds one to the pointer;
  when the pointer then stands on the closing \<open>null\<close>, past the last number, the
  \<open>null\<close> is replaced by a zero and a new \<open>null\<close> is pushed, so the tape has
  grown by exactly one zero cell; otherwise the array is unchanged. On a fresh
  executor, \<open>IncrementPointer\<close> then \<open>Output\<close> ends without failure, having written
  the one code unit 0; so does \<open>runCode\<close> on the source text of these two
  instructions.
\<close>

theorem increment_pointer_extends:
  "(tape_ok s \<and> pointer s < 2 ^ 53 \<longrightarrow>
      exec_instruction INCREMENT_POINTER s =
        Done (s\<lparr>pointer := pointer s + 1,
                 memory := (if pointer s + 1 = int (length (memory s)) - 1
                            then butlast (memory s) @ [Num 0, Null] else memory s)\<rparr>)) \<and>
   exec n [Simple INCREMENT_POINTER, Simple OUT] fresh =
     Done (fresh\<lparr>pointer := 1, memory := [Num 0, Num 0, Null], stdout := [0]\<rparr>) \<and>
   map_option written (runCode n (encode [C, B, A, C])) = Some [0]"
  using increment_pointer_effect [of s] fresh_run [of n] fresh_run_source [of n]
  by simp

theorem increment_pointer_extends_witness:
  "tape_ok fresh \<and> pointer fresh < 2 ^ 53 \<and>
   exec_instruction INCREMENT_POINTER fresh =
     Done (fresh\<lparr>pointer := 1, memory := [Num 0, Num 0, Null]\<rparr>)"
  using increment_pointer_extends [of fresh 0]
  by (simp add: tape_ok_def fresh_def)

text \<open>
  Claim C10. The fresh state has the shape \<open>tape_ok\<close>: numbers, then exactly
  one \<open>null\<close>, the pointer at most at the last number. Every run from the fresh
  state, of any tree and cut off after any amount of fuel, ends in a state of
  that shape; so does every run from a state of that shape, and every single
  instruction. An instruction leaves the length of the array as it is, unless it
  is \<open>IncrementPointer\<close>, and then the array is the old one with a zero put in
  before the closing \<open>null\<close>.
\<close>

theorem tape_invariant:
  "tape_ok fresh \<and> tape_ok (state_of (exec n t fresh)) \<and>
   (tape_ok s \<longrightarrow> tape_ok (state_of (exec n t s))) \<and>
   (tape_ok s \<longrightarrow>
      tape_ok (state_of (exec_instruction v s)) \<and>
      (length (memory (state_of (exec_instruction v s))) = length (memory s) \<or>
       v = INCREMENT_POINTER \<and>
       memory (state_of (exec_instruction v s)) = butlast (memory s) @ [Num 0, Null]))"
  using tape_ok_fresh tape_ok_exec [OF tape_ok_fresh, of n t] tape_ok_exec [of s n t]
    tape_ok_step [of s v]
  by blast

theorem tape_invariant_witness:
  "tape_ok fresh \<and>
   tape_ok (state_of (exec 0 [Simple INCREMENT_POINTER, Simple OUT] fresh)) \<and>
   tape_ok (state_of (exec_instruction INCREMENT_POINTER fresh)) \<and>
   memory (state_of (exec_instruction INCREMENT_POINTER fresh)) = [Num 0, Num 0, Null]"
proof -
  have m: "memory (state_of (exec_instruction INCREMENT_POINTER fresh)) = [Num 0, Num 0, Null]"
    by (simp add: exec_instruction_def fresh_def js_inc_def mem_get_def mem_set_def
        mem_push_def Let_def)
  from tape_invariant [of 0 "[Simple INCREMENT_POINTER, Simple OUT]" fresh INCREMENT_POINTER] m
  show ?thesis by simp
qed

end
